theory Spec2Isabelle
  imports Main "HOL-Library.Sublist"
begin

section \<open>Strings of the C++ standard library\<close>

text \<open>
  A \<open>std::string\<close> is a list of bytes. A \<open>size_t\<close> is a natural number below
  \<open>2 ^ 64\<close>; its arithmetic wraps around, and the wrap is written out in \<open>sz_add\<close> and
  \<open>sz_sub\<close>. \<open>std::string::npos\<close> is the largest \<open>size_t\<close>.
\<close>

type_synonym size_t = nat

definition npos :: size_t where
  "npos = 18446744073709551615"

definition sz_add :: "size_t \<Rightarrow> size_t \<Rightarrow> size_t" where
  "sz_add a b = (a + b) mod 18446744073709551616"

definition sz_sub :: "size_t \<Rightarrow> size_t \<Rightarrow> size_t" where
  "sz_sub a b = (a + 18446744073709551616 - b mod 18446744073709551616) mod 18446744073709551616"

text \<open>The exceptions the parsers can meet: both derive from \<open>std::exception\<close>.\<close>

datatype exn = InvalidArgument | OutOfRange

datatype 'a result = Ok 'a | Throw exn

definition bind :: "'a result \<Rightarrow> ('a \<Rightarrow> 'b result) \<Rightarrow> 'b result" where
  "bind r f = (case r of Ok x \<Rightarrow> f x | Throw e \<Rightarrow> Throw e)"

fun starts_with :: "string \<Rightarrow> string \<Rightarrow> bool" where
  "starts_with s [] = True"
| "starts_with [] (p # ps) = False"
| "starts_with (c # cs) (p # ps) = (c = p \<and> starts_with cs ps)"

text \<open>\<open>find_at s pat i\<close>: the first occurrence of \<open>pat\<close> in \<open>s\<close>, where \<open>s\<close> is the
  part of the searched string that starts at index \<open>i\<close>.\<close>

fun find_at :: "string \<Rightarrow> string \<Rightarrow> size_t \<Rightarrow> size_t" where
  "find_at [] pat i = (if pat = [] then i else npos)"
| "find_at (c # cs) pat i =
     (if starts_with (c # cs) pat then i else find_at cs pat (i + 1))"

text \<open>\<open>s.find(pat, pos)\<close>: the lowest index at or after \<open>pos\<close> where \<open>pat\<close> occurs,
  \<open>npos\<close> when there is none or \<open>pos\<close> is past the end.\<close>

definition str_find :: "string \<Rightarrow> string \<Rightarrow> size_t \<Rightarrow> size_t" where
  "str_find s pat pos =
     (if pos > length s then npos else find_at (drop pos s) pat pos)"

fun rfind_at :: "string \<Rightarrow> string \<Rightarrow> nat \<Rightarrow> size_t" where
  "rfind_at s pat 0 = (if starts_with s pat then 0 else npos)"
| "rfind_at s pat (Suc i) =
     (if starts_with (drop (Suc i) s) pat then Suc i else rfind_at s pat i)"

text \<open>\<open>s.rfind(pat, pos)\<close>: the highest index at or before \<open>pos\<close> where \<open>pat\<close> starts.\<close>

definition str_rfind :: "string \<Rightarrow> string \<Rightarrow> size_t \<Rightarrow> size_t" where
  "str_rfind s pat pos =
     (if length pat > length s then npos
      else rfind_at s pat (min (length s - length pat) pos))"

fun find_first_not_of_at :: "string \<Rightarrow> string \<Rightarrow> size_t \<Rightarrow> size_t" where
  "find_first_not_of_at [] chars i = npos"
| "find_first_not_of_at (c # cs) chars i =
     (if c \<in> set chars then find_first_not_of_at cs chars (i + 1) else i)"

definition find_first_not_of :: "string \<Rightarrow> string \<Rightarrow> size_t" where
  "find_first_not_of s chars = find_first_not_of_at s chars 0"

text \<open>\<open>s.substr(pos, n)\<close> throws \<open>std::out_of_range\<close> when \<open>pos\<close> is past the end,
  and stops at the end of the string.\<close>

definition substr :: "string \<Rightarrow> size_t \<Rightarrow> size_t \<Rightarrow> string result" where
  "substr s pos n = (if pos > length s then Throw OutOfRange else Ok (take n (drop pos s)))"

text \<open>\<open>::tolower\<close> in the C locale: the upper-case ASCII letters, and only they, change.\<close>

definition tolower :: "char \<Rightarrow> char" where
  "tolower c =
     (case map_of (zip ''ABCDEFGHIJKLMNOPQRSTUVWXYZ'' ''abcdefghijklmnopqrstuvwxyz'') c of
        Some l \<Rightarrow> l
      | None \<Rightarrow> c)"

section \<open>The normalized record (price\_update.hpp)\<close>

text \<open>
  A \<open>double\<close> is a finite binary number with its sign bit (\<open>Finite neg m e\<close> has the
  magnitude \<open>m * 2 ^ e\<close>), an infinity, or a NaN. The bound on the mantissa and the
  range of the exponent are left out: every value of the machine type is a value here.
\<close>

datatype double = Finite bool nat int | Infinity bool | NaN bool

text \<open>\<open>timestamp\<close> is a \<open>std::chrono::system_clock::time_point\<close>: a count of
  nanoseconds since the Unix epoch (libstdc++, the toolchain the repository builds with).\<close>

record PriceUpdate =
  exchange :: string
  pair :: string
  bid :: double
  ask :: double
  timestamp :: int

section \<open>The venues and their symbol maps\<close>

datatype venue = Binance | Kraken | Coinbase | Bybit | OKX

text \<open>The \<open>name\<close> argument each constructor passes to \<open>WebSocketClient\<close>.\<close>

fun venue_name :: "venue \<Rightarrow> string" where
  "venue_name Binance = ''Binance''"
| "venue_name Kraken = ''Kraken''"
| "venue_name Coinbase = ''Coinbase''"
| "venue_name Bybit = ''Bybit''"
| "venue_name OKX = ''OKX''"

text \<open>The assignments \<open>pair_mapping_[normalized] = venue_format\<close> of each constructor,
  in the order of the source.\<close>

fun pair_assignments :: "venue \<Rightarrow> (string \<times> string) list" where
  "pair_assignments Binance =
     [(''BTC/USDT'', ''btcusdt''), (''ETH/USDT'', ''ethusdt''),
      (''SOL/USDT'', ''solusdt''), (''XRP/USDT'', ''xrpusdt'')]"
| "pair_assignments Kraken =
     [(''BTC/USDT'', ''XBT/USDT''), (''ETH/USDT'', ''ETH/USDT''),
      (''SOL/USDT'', ''SOL/USDT''), (''XRP/USDT'', ''XRP/USDT'')]"
| "pair_assignments Coinbase =
     [(''BTC/USDT'', ''BTC-USDT''), (''ETH/USDT'', ''ETH-USDT''),
      (''SOL/USDT'', ''SOL-USDT''), (''XRP/USDT'', ''XRP-USDT'')]"
| "pair_assignments Bybit =
     [(''BTC/USDT'', ''BTCUSDT''), (''ETH/USDT'', ''ETHUSDT''),
      (''SOL/USDT'', ''SOLUSDT''), (''XRP/USDT'', ''XRPUSDT'')]"
| "pair_assignments OKX =
     [(''BTC/USDT'', ''BTC-USDT''), (''ETH/USDT'', ''ETH-USDT''),
      (''SOL/USDT'', ''SOL-USDT''), (''XRP/USDT'', ''XRP-USDT'')]"

text \<open>\<open>m[k] = v\<close> for each pair of a list, in order.\<close>

definition assign_all :: "(string \<times> string) list \<Rightarrow> (string \<rightharpoonup> string) \<Rightarrow> (string \<rightharpoonup> string)" where
  "assign_all kvs m = fold (\<lambda>(k, v) m. m(k \<mapsto> v)) kvs m"

definition pair_mapping :: "venue \<Rightarrow> (string \<rightharpoonup> string)" where
  "pair_mapping v = assign_all (pair_assignments v) Map.empty"

text \<open>
  The reverse map is filled by a range-for over \<open>pair_mapping\<close>, whose iteration order
  the container does not fix: \<open>enumerates es m\<close> says that \<open>es\<close> lists the entries of
  \<open>m\<close>, each key once, in some order.
\<close>

definition enumerates :: "(string \<times> string) list \<Rightarrow> (string \<rightharpoonup> string) \<Rightarrow> bool" where
  "enumerates es m = (distinct (map fst es) \<and> map_of es = m)"

definition build_reverse :: "(string \<times> string) list \<Rightarrow> (string \<rightharpoonup> string)" where
  "build_reverse es = assign_all (map (\<lambda>(normalized, fmt). (fmt, normalized)) es) Map.empty"

text \<open>The reverse map of a venue, built in the order of the assignments; any other
  iteration order builds the same map (\<open>build_reverse_any_order\<close> below).\<close>

definition reverse_mapping :: "venue \<Rightarrow> (string \<rightharpoonup> string)" where
  "reverse_mapping v = build_reverse (pair_assignments v)"

definition canonical_pairs :: "string list" where
  "canonical_pairs = [''BTC/USDT'', ''ETH/USDT'', ''SOL/USDT'', ''XRP/USDT'']"

section \<open>The venue parsers\<close>

text \<open>
  \<open>std::stod\<close> belongs to the standard library, not to the repository: the parsers
  take it as the parameter \<open>stod\<close>, which returns a \<open>double\<close> or throws
  \<open>std::invalid_argument\<close> or \<open>std::out_of_range\<close>. \<open>now\<close> is the value of
  \<open>std::chrono::system_clock::now()\<close> at the call.
\<close>

type_synonym stod_fn = "string \<Rightarrow> double result"

text \<open>The search key \<open>"\"" + key + "\""\<close>.\<close>

definition quoted :: "string \<Rightarrow> string" where
  "quoted key = CHR 0x22 # key @ [CHR 0x22]"

text \<open>\<open>get_json_string\<close> and \<open>has_key\<close> are defined, with the same text, in
  binance\_client.cpp, coinbase\_client.cpp, bybit\_client.cpp and okx\_client.cpp.\<close>

definition get_json_string :: "string \<Rightarrow> string \<Rightarrow> string result" where
  "get_json_string json key =
     (let pos = str_find json (quoted key) 0 in
      if pos = npos then Ok []
      else
        let pos = str_find json '':'' pos;
            pos = str_find json [CHR 0x22] pos;
            end_pos = str_find json [CHR 0x22] (sz_add pos 1)
        in if pos = npos \<or> end_pos = npos then Ok []
           else substr json (sz_add pos 1) (sz_sub (sz_sub end_pos pos) 1))"

definition has_key :: "string \<Rightarrow> string \<Rightarrow> bool" where
  "has_key json key = (str_find json (quoted key) 0 \<noteq> npos)"

text \<open>kraken\_client.cpp: \<open>is_array\<close> and \<open>get_nested_value\<close>. \<open>skip_commas\<close> is the
  \<open>for\<close> loop of \<open>get_nested_value\<close>; it yields \<open>None\<close> where the loop returns the
  empty string.\<close>

definition is_array :: "string \<Rightarrow> bool" where
  "is_array json =
     (let first = find_first_not_of json [CHR '' '', CHR 0x09, CHR 0x0A, CHR 0x0D]
      in first \<noteq> npos \<and> json ! first = CHR ''['')"

fun skip_commas :: "string \<Rightarrow> nat \<Rightarrow> size_t \<Rightarrow> size_t option" where
  "skip_commas json 0 pos = Some pos"
| "skip_commas json (Suc n) pos =
     (let pos = str_find json '','' (sz_add pos 1)
      in if pos = npos then None else skip_commas json n pos)"

definition get_nested_value :: "string \<Rightarrow> string \<Rightarrow> int \<Rightarrow> string result" where
  "get_nested_value json key index =
     (let pos = str_find json (quoted key) 0 in
      if pos = npos then Ok []
      else
        let pos = str_find json ''['' pos in
        if pos = npos then Ok []
        else
          case skip_commas json (nat index) pos of
            None \<Rightarrow> Ok []
          | Some pos \<Rightarrow>
              let pos = str_find json [CHR 0x22] pos;
                  end_pos = str_find json [CHR 0x22] (sz_add pos 1)
              in if pos = npos \<or> end_pos = npos then Ok []
                 else substr json (sz_add pos 1) (sz_sub (sz_sub end_pos pos) 1))"

text \<open>
  The body of each \<open>parse_message\<close>, inside its \<open>try\<close> block. The result lists the
  records handed to \<open>notify_price_update\<close> (none where the source returns early), or
  is the exception that leaves the block.
\<close>

definition binance_parse_body :: "stod_fn \<Rightarrow> int \<Rightarrow> string \<Rightarrow> PriceUpdate list result" where
  "binance_parse_body stod now message =
     (if \<not> has_key message ''s'' \<or> \<not> has_key message ''b'' \<or> \<not> has_key message ''a''
      then Ok []
      else
        bind (get_json_string message ''s'') (\<lambda>symbol.
        let symbol = map tolower symbol in
        case reverse_mapping Binance symbol of
          None \<Rightarrow> Ok []
        | Some normalized \<Rightarrow>
            bind (bind (get_json_string message ''b'') stod) (\<lambda>b.
            bind (bind (get_json_string message ''a'') stod) (\<lambda>a.
            Ok [\<lparr>exchange = venue_name Binance, pair = normalized,
                 bid = b, ask = a, timestamp = now\<rparr>]))))"

definition kraken_parse_body :: "stod_fn \<Rightarrow> int \<Rightarrow> string \<Rightarrow> PriceUpdate list result" where
  "kraken_parse_body stod now message =
     (if \<not> is_array message then Ok []
      else if str_find message (quoted ''ticker'') 0 = npos then Ok []
      else
        let last_quote = str_rfind message [CHR 0x22] npos;
            second_last = str_rfind message [CHR 0x22] (sz_sub last_quote 1)
        in if second_last = npos then Ok []
           else
             bind (substr message (sz_add second_last 1)
                     (sz_sub (sz_sub last_quote second_last) 1)) (\<lambda>kraken_pair.
             case reverse_mapping Kraken kraken_pair of
               None \<Rightarrow> Ok []
             | Some normalized \<Rightarrow>
                 bind (bind (get_nested_value message ''b'' 0) stod) (\<lambda>b.
                 bind (bind (get_nested_value message ''a'' 0) stod) (\<lambda>a.
                 Ok [\<lparr>exchange = venue_name Kraken, pair = normalized,
                      bid = b, ask = a, timestamp = now\<rparr>]))))"

definition coinbase_parse_body :: "stod_fn \<Rightarrow> int \<Rightarrow> string \<Rightarrow> PriceUpdate list result" where
  "coinbase_parse_body stod now message =
     bind (get_json_string message ''type'') (\<lambda>type.
     if type \<noteq> ''ticker'' then Ok []
     else if \<not> has_key message ''product_id'' \<or> \<not> has_key message ''best_bid''
             \<or> \<not> has_key message ''best_ask''
     then Ok []
     else
       bind (get_json_string message ''product_id'') (\<lambda>product_id.
       case reverse_mapping Coinbase product_id of
         None \<Rightarrow> Ok []
       | Some normalized \<Rightarrow>
           bind (bind (get_json_string message ''best_bid'') stod) (\<lambda>b.
           bind (bind (get_json_string message ''best_ask'') stod) (\<lambda>a.
           Ok [\<lparr>exchange = venue_name Coinbase, pair = normalized,
                bid = b, ask = a, timestamp = now\<rparr>]))))"

definition bybit_parse_body :: "stod_fn \<Rightarrow> int \<Rightarrow> string \<Rightarrow> PriceUpdate list result" where
  "bybit_parse_body stod now message =
     (if \<not> has_key message ''topic'' \<or> \<not> has_key message ''data'' then Ok []
      else
        bind (get_json_string message ''topic'') (\<lambda>topic.
        if str_find topic ''tickers.'' 0 \<noteq> 0 then Ok []
        else
          bind (get_json_string message ''symbol'') (\<lambda>symbol.
          if symbol = [] then Ok []
          else
            case reverse_mapping Bybit symbol of
              None \<Rightarrow> Ok []
            | Some normalized \<Rightarrow>
                bind (get_json_string message ''bid1Price'') (\<lambda>bid_str.
                bind (get_json_string message ''ask1Price'') (\<lambda>ask_str.
                if bid_str = [] \<or> ask_str = [] then Ok []
                else
                  bind (stod bid_str) (\<lambda>b.
                  bind (stod ask_str) (\<lambda>a.
                  Ok [\<lparr>exchange = venue_name Bybit, pair = normalized,
                       bid = b, ask = a, timestamp = now\<rparr>])))))))"

definition okx_parse_body :: "stod_fn \<Rightarrow> int \<Rightarrow> string \<Rightarrow> PriceUpdate list result" where
  "okx_parse_body stod now message =
     (if \<not> has_key message ''data'' then Ok []
      else
        bind (get_json_string message ''instId'') (\<lambda>inst_id.
        if inst_id = [] then Ok []
        else
          case reverse_mapping OKX inst_id of
            None \<Rightarrow> Ok []
          | Some normalized \<Rightarrow>
              bind (get_json_string message ''bidPx'') (\<lambda>bid_str.
              bind (get_json_string message ''askPx'') (\<lambda>ask_str.
              if bid_str = [] \<or> ask_str = [] then Ok []
              else
                bind (stod bid_str) (\<lambda>b.
                bind (stod ask_str) (\<lambda>a.
                Ok [\<lparr>exchange = venue_name OKX, pair = normalized,
                     bid = b, ask = a, timestamp = now\<rparr>]))))))"

fun parse_body :: "venue \<Rightarrow> stod_fn \<Rightarrow> int \<Rightarrow> string \<Rightarrow> PriceUpdate list result" where
  "parse_body Binance = binance_parse_body"
| "parse_body Kraken = kraken_parse_body"
| "parse_body Coinbase = coinbase_parse_body"
| "parse_body Bybit = bybit_parse_body"
| "parse_body OKX = okx_parse_body"

text \<open>\<open>try { ... } catch (const std::exception& e) { }\<close>: an exception of the body is
  swallowed, and nothing was notified before it.\<close>

definition catch_std_exception :: "PriceUpdate list result \<Rightarrow> PriceUpdate list result" where
  "catch_std_exception r = (case r of Ok us \<Rightarrow> Ok us | Throw e \<Rightarrow> Ok [])"

definition parse_message :: "venue \<Rightarrow> stod_fn \<Rightarrow> int \<Rightarrow> string \<Rightarrow> PriceUpdate list result" where
  "parse_message v stod now message = catch_std_exception (parse_body v stod now message)"

text \<open>
  \<open>get_subscribe_message\<close> of each venue. Bybit and OKX write one entry per element
  of \<open>pair_mapping_\<close> in its iteration order \<open>es\<close>; the other venues return a literal.
\<close>

fun join_with :: "string \<Rightarrow> string list \<Rightarrow> string" where
  "join_with sep [] = []"
| "join_with sep [x] = x"
| "join_with sep (x # y # ys) = x @ sep @ join_with sep (y # ys)"

fun get_subscribe_message :: "venue \<Rightarrow> (string \<times> string) list \<Rightarrow> string" where
  \<open>get_subscribe_message Binance es = []\<close>
| \<open>get_subscribe_message Kraken es =
      ''{'' @ [CHR 0x0A] @
      ''        "event": "subscribe",'' @ [CHR 0x0A] @
      ''        "pair": ["XBT/USDT", "ETH/USDT", "SOL/USDT", "XRP/USDT"],'' @ [CHR 0x0A] @
      ''        "subscription": {"name": "ticker"}'' @ [CHR 0x0A] @
      ''    }''\<close>
| \<open>get_subscribe_message Coinbase es =
      ''{'' @ [CHR 0x0A] @
      ''        "type": "subscribe",'' @ [CHR 0x0A] @
      ''        "product_ids": ["BTC-USDT", "ETH-USDT", "SOL-USDT", "XRP-USDT"],'' @ [CHR 0x0A] @
      ''        "channels": ["ticker"]'' @ [CHR 0x0A] @
      ''    }''\<close>
| \<open>get_subscribe_message Bybit es =
      ''{"op":"subscribe","args":['' @
      join_with '','' (map (\<lambda>(normalized, bybit_fmt). ''"tickers.'' @ bybit_fmt @ ''"'') es) @
      '']}''\<close>
| \<open>get_subscribe_message OKX es =
      ''{"op":"subscribe","args":['' @
      join_with '',''
        (map (\<lambda>(normalized, okx_fmt). ''{"channel":"tickers","instId":"'' @ okx_fmt @ ''"}'') es) @
      '']}''\<close>

section \<open>PriceUpdate::to\_json (price\_update.cpp)\<close>

text \<open>Decimal digits of a natural number, as \<open>operator<<\<close> writes an integer.\<close>

definition digit_char :: "nat \<Rightarrow> char" where
  "digit_char d = ''0123456789'' ! d"

fun show_nat :: "nat \<Rightarrow> string" where
  "show_nat n = (if n < 10 then [digit_char n] else show_nat (n div 10) @ [digit_char (n mod 10)])"

definition show_int :: "int \<Rightarrow> string" where
  "show_int i = (if i < 0 then CHR ''-'' # show_nat (nat (- i)) else show_nat (nat i))"

text \<open>
  \<open>std::fixed << std::setprecision(8)\<close>: a finite number is written with its sign, its
  integer part and exactly eight fractional digits, rounded to nearest from the exact binary
  value (ties to even); infinities and NaNs are written as words.
  \<open>round_half_even a b\<close> is the integer nearest to \<open>a / b\<close>, and \<open>scaled8 m e\<close> the
  integer nearest to \<open>m * 2 ^ e * 10 ^ 8\<close>.
\<close>

definition round_half_even :: "nat \<Rightarrow> nat \<Rightarrow> nat" where
  "round_half_even a b =
     (let q = a div b; r = a mod b
      in if 2 * r < b then q else if b < 2 * r then q + 1 else if even q then q else q + 1)"

definition scaled8 :: "nat \<Rightarrow> int \<Rightarrow> nat" where
  "scaled8 m e =
     (if 0 \<le> e then m * 2 ^ nat e * 100000000
      else round_half_even (m * 100000000) (2 ^ nat (- e)))"

definition frac8 :: "nat \<Rightarrow> string" where
  "frac8 n = replicate (8 - length (show_nat n)) CHR ''0'' @ show_nat n"

fun fixed8 :: "double \<Rightarrow> string" where
  "fixed8 (Finite neg m e) =
     (let n = scaled8 m e
      in (if neg then ''-'' else []) @ show_nat (n div 100000000) @ ''.'' @ frac8 (n mod 100000000))"
| "fixed8 (Infinity neg) = (if neg then ''-inf'' else ''inf'')"
| "fixed8 (NaN neg) = (if neg then ''-nan'' else ''nan'')"

text \<open>\<open>duration_cast<milliseconds>(timestamp.time_since_epoch()).count()\<close>: the
  nanosecond count divided by \<open>10 ^ 6\<close>, rounded toward zero.\<close>

definition epoch_ms :: "int \<Rightarrow> int" where
  "epoch_ms ns = (if 0 \<le> ns then ns div 1000000 else - ((- ns) div 1000000))"

definition to_json :: "PriceUpdate \<Rightarrow> string" where
  \<open>to_json u =
     (let ms = epoch_ms (timestamp u)
      in ''{"exchange":"'' @ exchange u @ ''",'' @
         ''"pair":"'' @ pair u @ ''",'' @
         ''"bid":'' @ fixed8 (bid u) @ '','' @
         ''"ask":'' @ fixed8 (ask u) @ '','' @
         ''"timestamp":'' @ show_int ms @ ''}'')\<close>

section \<open>PriceFeedServer (price\_feed\_server.cpp)\<close>

text \<open>
  A consumer is the handle of its socket. \<open>wire c\<close> is every byte written to socket
  \<open>c\<close> so far, and \<open>next_socket\<close> the handle the next accepted connection gets (each
  \<open>accept\<close> makes a new socket). \<open>asio::write\<close> writes the whole buffer or stops at an
  error, after some bytes.
\<close>

record server =
  clients :: "nat list"
  wire :: "nat \<Rightarrow> string"
  next_socket :: nat

datatype write_result = WriteOk | WriteError nat

fun transferred :: "write_result \<Rightarrow> string \<Rightarrow> string" where
  "transferred WriteOk msg = msg"
| "transferred (WriteError n) msg = take n msg"

definition PriceFeedServer :: server where
  "PriceFeedServer = \<lparr>clients = [], wire = (\<lambda>c. []), next_socket = 0\<rparr>"

definition handle_accept :: "server \<Rightarrow> server" where
  "handle_accept st =
     st\<lparr>clients := clients st @ [next_socket st], next_socket := Suc (next_socket st)\<rparr>"

text \<open>\<open>std::remove_if\<close> with the writing predicate: every client is written to once, in
  order, and is kept when its write reports no error. \<open>w c\<close> is what the write to \<open>c\<close>
  meets during this call.\<close>

fun remove_if_write ::
  "(nat \<Rightarrow> write_result) \<Rightarrow> string \<Rightarrow> nat list \<Rightarrow> (nat \<Rightarrow> string) \<Rightarrow> nat list \<times> (nat \<Rightarrow> string)" where
  "remove_if_write w json_msg [] wr = ([], wr)"
| "remove_if_write w json_msg (c # cs) wr =
     (let wr = wr(c := wr c @ transferred (w c) json_msg);
          (kept, wr) = remove_if_write w json_msg cs wr
      in if w c \<noteq> WriteOk then (kept, wr) else (c # kept, wr))"

definition broadcast_price :: "(nat \<Rightarrow> write_result) \<Rightarrow> PriceUpdate \<Rightarrow> server \<Rightarrow> server" where
  "broadcast_price w update st =
     (let json_msg = to_json update @ [CHR 0x0A];
          (kept, wr) = remove_if_write w json_msg (clients st) (wire st)
      in st\<lparr>clients := kept, wire := wr\<rparr>)"

text \<open>
  What happens to the server: a connection is accepted, or a session's callback calls
  \<open>broadcast_price\<close>. Both take the mutex, so they happen one at a time. \<open>serve\<close> is
  the server after a sequence of such events.
\<close>

datatype server_event = Accept | Broadcast "nat \<Rightarrow> write_result" PriceUpdate

fun serve_step :: "server \<Rightarrow> server_event \<Rightarrow> server" where
  "serve_step st Accept = handle_accept st"
| "serve_step st (Broadcast w update) = broadcast_price w update st"

definition serve :: "server_event list \<Rightarrow> server" where
  "serve events = foldl serve_step PriceFeedServer events"

section \<open>WebSocketClient (websocket\_client.cpp)\<close>

text \<open>
  The I/O calls of a session. The first seven are asynchronous: each is started with a
  completion handler and completes once, later. The two closes are synchronous.
  \<open>TimerWait d\<close> is a \<open>steady_timer\<close> set to \<open>d\<close> seconds.
\<close>

datatype io_op =
    AsyncResolve | AsyncConnect | AsyncSslHandshake | AsyncWsHandshake
  | AsyncWrite | AsyncRead | TimerWait nat
  | WsClose | SocketClose

text \<open>
  The state of a session: the two members the handlers branch on, the asynchronous
  operations that have not completed yet, the log of every I/O call made so far, and the
  records passed to the callback.
\<close>

record session =
  running :: bool
  reconnect_attempts :: int
  pending :: "io_op list"
  issued :: "io_op list"
  notified :: "PriceUpdate list"

text \<open>The two pure virtual functions a derived client supplies.\<close>

record vtable =
  vt_subscribe_message :: string
  vt_parse_message :: "int \<Rightarrow> string \<Rightarrow> PriceUpdate list result"

definition client_vtable :: "venue \<Rightarrow> stod_fn \<Rightarrow> (string \<times> string) list \<Rightarrow> vtable" where
  "client_vtable v stod es =
     \<lparr>vt_subscribe_message = get_subscribe_message v es,
      vt_parse_message = parse_message v stod\<rparr>"

definition MAX_RECONNECT_ATTEMPTS :: int where
  "MAX_RECONNECT_ATTEMPTS = 10"

definition RECONNECT_DELAY_SECONDS :: nat where
  "RECONNECT_DELAY_SECONDS = 5"

definition async :: "io_op \<Rightarrow> session \<Rightarrow> session" where
  "async op s = s\<lparr>pending := pending s @ [op], issued := issued s @ [op]\<rparr>"

definition sync :: "io_op \<Rightarrow> session \<Rightarrow> session" where
  "sync op s = s\<lparr>issued := issued s @ [op]\<rparr>"

text \<open>The constructor.\<close>

definition WebSocketClient :: session where
  "WebSocketClient =
     \<lparr>running = False, reconnect_attempts = 0, pending = [], issued = [], notified = []\<rparr>"

definition resolve :: "session \<Rightarrow> session" where
  "resolve s = async AsyncResolve s"

definition start :: "session \<Rightarrow> session" where
  "start s = resolve (s\<lparr>running := True, reconnect_attempts := 0\<rparr>)"

definition stop :: "session \<Rightarrow> session" where
  "stop s = sync WsClose (s\<lparr>running := False\<rparr>)"

definition reconnect :: "session \<Rightarrow> session" where
  "reconnect s =
     (if \<not> running s \<or> reconnect_attempts s \<ge> MAX_RECONNECT_ATTEMPTS then s
      else
        let s = s\<lparr>reconnect_attempts := reconnect_attempts s + 1\<rparr>;
            s = sync SocketClose s
        in async (TimerWait RECONNECT_DELAY_SECONDS) s)"

definition connect :: "session \<Rightarrow> session" where
  "connect s = async AsyncConnect s"

text \<open>\<open>sni_ok\<close>: whether \<open>SSL_set_tlsext_host_name\<close> succeeds.\<close>

definition ssl_handshake :: "bool \<Rightarrow> session \<Rightarrow> session" where
  "ssl_handshake sni_ok s = (if \<not> sni_ok then reconnect s else async AsyncSslHandshake s)"

definition ws_handshake :: "session \<Rightarrow> session" where
  "ws_handshake s = async AsyncWsHandshake s"

definition read :: "session \<Rightarrow> session" where
  "read s = async AsyncRead s"

definition subscribe :: "vtable \<Rightarrow> session \<Rightarrow> session" where
  "subscribe vt s = (if vt_subscribe_message vt = [] then read s else async AsyncWrite s)"

text \<open>The completion handlers. \<open>ec\<close> is true when the operation failed.\<close>

definition on_resolve :: "bool \<Rightarrow> session \<Rightarrow> session" where
  "on_resolve ec s = (if ec then reconnect s else connect s)"

definition on_connect :: "bool \<Rightarrow> bool \<Rightarrow> session \<Rightarrow> session" where
  "on_connect ec sni_ok s = (if ec then reconnect s else ssl_handshake sni_ok s)"

definition on_ssl_handshake :: "bool \<Rightarrow> session \<Rightarrow> session" where
  "on_ssl_handshake ec s = (if ec then reconnect s else ws_handshake s)"

definition on_ws_handshake :: "vtable \<Rightarrow> bool \<Rightarrow> session \<Rightarrow> session" where
  "on_ws_handshake vt ec s =
     (if ec then reconnect s else subscribe vt (s\<lparr>reconnect_attempts := 0\<rparr>))"

definition on_subscribe :: "bool \<Rightarrow> session \<Rightarrow> session" where
  "on_subscribe ec s = (if ec then reconnect s else read s)"

definition on_read :: "vtable \<Rightarrow> bool \<Rightarrow> int \<Rightarrow> string \<Rightarrow> session \<Rightarrow> session" where
  "on_read vt ec now message s =
     (if ec then reconnect s
      else
        let s = (case vt_parse_message vt now message of
                   Ok us \<Rightarrow> s\<lparr>notified := notified s @ us\<rparr>
                 | Throw e \<Rightarrow> s)
        in if running s then read s else s)"

definition on_timer :: "session \<Rightarrow> session" where
  "on_timer s = (if running s then resolve s else s)"

text \<open>What the I/O runtime reports when an operation completes.\<close>

record completion =
  ec :: bool
  sni_ok :: bool
  message :: string
  now :: int

fun complete :: "vtable \<Rightarrow> io_op \<Rightarrow> completion \<Rightarrow> session \<Rightarrow> session" where
  "complete vt AsyncResolve c s = on_resolve (ec c) s"
| "complete vt AsyncConnect c s = on_connect (ec c) (sni_ok c) s"
| "complete vt AsyncSslHandshake c s = on_ssl_handshake (ec c) s"
| "complete vt AsyncWsHandshake c s = on_ws_handshake vt (ec c) s"
| "complete vt AsyncWrite c s = on_subscribe (ec c) s"
| "complete vt AsyncRead c s = on_read vt (ec c) (now c) (message c) s"
| "complete vt (TimerWait d) c s = on_timer s"
| "complete vt WsClose c s = s"
| "complete vt SocketClose c s = s"

text \<open>
  Everything that can happen to a session: its owner calls \<open>start\<close> or \<open>stop\<close>, or a
  pending operation completes. \<open>run\<close> is a session after a sequence of such events.
\<close>

datatype event = Start | Stop | Completes io_op completion

fun fire :: "vtable \<Rightarrow> event \<Rightarrow> session \<Rightarrow> session" where
  "fire vt Start s = start s"
| "fire vt Stop s = stop s"
| "fire vt (Completes op c) s =
     (if op \<in> set (pending s) then complete vt op c (s\<lparr>pending := remove1 op (pending s)\<rparr>)
      else s)"

definition run :: "vtable \<Rightarrow> event list \<Rightarrow> session" where
  "run vt events = foldl (\<lambda>s e. fire vt e s) WebSocketClient events"

text \<open>
  \<open>drive vt env i n s\<close>: the session left alone with the runtime for \<open>n\<close> completions,
  the oldest pending operation first; \<open>env k op\<close> is what the runtime reports when the
  \<open>k\<close>-th completion is that of \<open>op\<close>. With nothing pending no handler runs again.
\<close>

fun drive :: "vtable \<Rightarrow> (nat \<Rightarrow> io_op \<Rightarrow> completion) \<Rightarrow> nat \<Rightarrow> nat \<Rightarrow> session \<Rightarrow> session" where
  "drive vt env i 0 s = s"
| "drive vt env i (Suc n) s =
     (case pending s of
        [] \<Rightarrow> s
      | op # ops \<Rightarrow> drive vt env (Suc i) n (complete vt op (env i op) (s\<lparr>pending := ops\<rparr>)))"

section \<open>Reference notions the properties are stated with\<close>

subsection \<open>JSON texts (RFC 8259)\<close>

text \<open>
  A recognizer of JSON texts, to state what a consumer can parse: a scanner that cuts a
  text into tokens, and a pushdown recognizer of the token sequences of the grammar. The
  scanner reads bytes: a string may hold any byte from \<open>0x20\<close> up except the quotation
  mark and the backslash, which only occur in escapes; control characters are refused.
  The encoding of bytes above \<open>0x7F\<close> is not inspected. A string token keeps the text
  between its quotation marks as it is written.
\<close>

datatype token =
    LBrace | RBrace | LBracket | RBracket | Colon | Comma
  | TString string | TNumber string | TTrue | TFalse | TNull

datatype num_state =
    AfterMinus | AfterZero | IntDigits | AfterPoint | FracDigits
  | AfterE | AfterESign | ExpDigits

datatype scan_state =
    Between
  | InString string
  | InEscape string
  | InUnicode string nat
  | InNumber num_state string
  | InLiteral string token

definition is_digit :: "char \<Rightarrow> bool" where
  "is_digit c = (c \<in> set ''0123456789'')"

definition is_hex_digit :: "char \<Rightarrow> bool" where
  "is_hex_digit c = (c \<in> set ''0123456789abcdefABCDEF'')"

definition is_control :: "char \<Rightarrow> bool" where
  "is_control c = ((of_char c :: nat) < 32)"

definition between_step :: "char \<Rightarrow> (scan_state \<times> token list) option" where
  "between_step c =
     (if c \<in> set [CHR '' '', CHR 0x09, CHR 0x0A, CHR 0x0D] then Some (Between, [])
      else if c = CHR ''{'' then Some (Between, [LBrace])
      else if c = CHR ''}'' then Some (Between, [RBrace])
      else if c = CHR ''['' then Some (Between, [LBracket])
      else if c = CHR '']'' then Some (Between, [RBracket])
      else if c = CHR '':'' then Some (Between, [Colon])
      else if c = CHR '','' then Some (Between, [Comma])
      else if c = CHR 0x22 then Some (InString [], [])
      else if c = CHR ''-'' then Some (InNumber AfterMinus [c], [])
      else if c = CHR ''0'' then Some (InNumber AfterZero [c], [])
      else if is_digit c then Some (InNumber IntDigits [c], [])
      else if c = CHR ''t'' then Some (InLiteral ''rue'' TTrue, [])
      else if c = CHR ''f'' then Some (InLiteral ''alse'' TFalse, [])
      else if c = CHR ''n'' then Some (InLiteral ''ull'' TNull, [])
      else None)"

text \<open>A number ends at the first character that cannot continue it; that character is
  then read as the start of what follows.\<close>

definition end_number :: "string \<Rightarrow> char \<Rightarrow> (scan_state \<times> token list) option" where
  "end_number txt c =
     (case between_step c of
        None \<Rightarrow> None
      | Some (st, ts) \<Rightarrow> Some (st, TNumber txt # ts))"

definition is_exp_mark :: "char \<Rightarrow> bool" where
  "is_exp_mark c = (c = CHR ''e'' \<or> c = CHR ''E'')"

fun number_step :: "num_state \<Rightarrow> string \<Rightarrow> char \<Rightarrow> (scan_state \<times> token list) option" where
  "number_step AfterMinus txt c =
     (if c = CHR ''0'' then Some (InNumber AfterZero (txt @ [c]), [])
      else if is_digit c then Some (InNumber IntDigits (txt @ [c]), [])
      else None)"
| "number_step AfterZero txt c =
     (if c = CHR ''.'' then Some (InNumber AfterPoint (txt @ [c]), [])
      else if is_exp_mark c then Some (InNumber AfterE (txt @ [c]), [])
      else end_number txt c)"
| "number_step IntDigits txt c =
     (if is_digit c then Some (InNumber IntDigits (txt @ [c]), [])
      else if c = CHR ''.'' then Some (InNumber AfterPoint (txt @ [c]), [])
      else if is_exp_mark c then Some (InNumber AfterE (txt @ [c]), [])
      else end_number txt c)"
| "number_step AfterPoint txt c =
     (if is_digit c then Some (InNumber FracDigits (txt @ [c]), []) else None)"
| "number_step FracDigits txt c =
     (if is_digit c then Some (InNumber FracDigits (txt @ [c]), [])
      else if is_exp_mark c then Some (InNumber AfterE (txt @ [c]), [])
      else end_number txt c)"
| "number_step AfterE txt c =
     (if c = CHR ''+'' \<or> c = CHR ''-'' then Some (InNumber AfterESign (txt @ [c]), [])
      else if is_digit c then Some (InNumber ExpDigits (txt @ [c]), [])
      else None)"
| "number_step AfterESign txt c =
     (if is_digit c then Some (InNumber ExpDigits (txt @ [c]), []) else None)"
| "number_step ExpDigits txt c =
     (if is_digit c then Some (InNumber ExpDigits (txt @ [c]), [])
      else end_number txt c)"

fun scan_step :: "scan_state \<Rightarrow> char \<Rightarrow> (scan_state \<times> token list) option" where
  "scan_step Between c = between_step c"
| "scan_step (InString txt) c =
     (if c = CHR 0x22 then Some (Between, [TString txt])
      else if c = CHR 0x5C then Some (InEscape (txt @ [c]), [])
      else if is_control c then None
      else Some (InString (txt @ [c]), []))"
| "scan_step (InEscape txt) c =
     (if c \<in> set [CHR 0x22, CHR 0x5C, CHR ''/'', CHR ''b'', CHR ''f'', CHR ''n'', CHR ''r'', CHR ''t'']
      then Some (InString (txt @ [c]), [])
      else if c = CHR ''u'' then Some (InUnicode (txt @ [c]) 4, [])
      else None)"
| "scan_step (InUnicode txt n) c =
     (if \<not> is_hex_digit c then None
      else if n \<le> 1 then Some (InString (txt @ [c]), [])
      else Some (InUnicode (txt @ [c]) (n - 1), []))"
| "scan_step (InNumber ns txt) c = number_step ns txt c"
| "scan_step (InLiteral rest tok) c =
     (case rest of
        [] \<Rightarrow> None
      | r # rs \<Rightarrow>
          if c \<noteq> r then None
          else if rs = [] then Some (Between, [tok])
          else Some (InLiteral rs tok, []))"

text \<open>At the end of the text nothing may be left open but a complete number.\<close>

fun scan_end :: "scan_state \<Rightarrow> token list option" where
  "scan_end Between = Some []"
| "scan_end (InNumber ns txt) =
     (if ns \<in> {AfterZero, IntDigits, FracDigits, ExpDigits} then Some [TNumber txt] else None)"
| "scan_end st = None"

fun scan :: "scan_state \<Rightarrow> string \<Rightarrow> token list option" where
  "scan st [] = scan_end st"
| "scan st (c # cs) =
     (case scan_step st c of
        None \<Rightarrow> None
      | Some (st', ts) \<Rightarrow>
          (case scan st' cs of None \<Rightarrow> None | Some rest \<Rightarrow> Some (ts @ rest)))"

definition tokens :: "string \<Rightarrow> token list option" where
  "tokens s = scan Between s"

text \<open>The grammar \<open>value = object / array / string / number / true / false / null\<close>,
  recognized with a stack of the containers that are open.\<close>

datatype container = InObject | InArray

datatype expect =
    ExpectValue | ExpectValueOrEnd | ExpectKey | ExpectKeyOrEnd | ExpectColon | ExpectCommaOrEnd

fun is_scalar :: "token \<Rightarrow> bool" where
  "is_scalar (TString s) = True"
| "is_scalar (TNumber s) = True"
| "is_scalar TTrue = True"
| "is_scalar TFalse = True"
| "is_scalar TNull = True"
| "is_scalar t = False"

fun value_start :: "bool \<Rightarrow> container list \<Rightarrow> token \<Rightarrow> (expect \<times> container list) option" where
  "value_start may_end stack LBrace = Some (ExpectKeyOrEnd, InObject # stack)"
| "value_start may_end stack LBracket = Some (ExpectValueOrEnd, InArray # stack)"
| "value_start may_end (InArray # stack) RBracket =
     (if may_end then Some (ExpectCommaOrEnd, stack) else None)"
| "value_start may_end stack t = (if is_scalar t then Some (ExpectCommaOrEnd, stack) else None)"

fun parse_step :: "expect \<Rightarrow> container list \<Rightarrow> token \<Rightarrow> (expect \<times> container list) option" where
  "parse_step ExpectValue stack t = value_start False stack t"
| "parse_step ExpectValueOrEnd stack t = value_start True stack t"
| "parse_step ExpectKey stack (TString k) = Some (ExpectColon, stack)"
| "parse_step ExpectKeyOrEnd stack (TString k) = Some (ExpectColon, stack)"
| "parse_step ExpectKeyOrEnd (InObject # stack) RBrace = Some (ExpectCommaOrEnd, stack)"
| "parse_step ExpectColon stack Colon = Some (ExpectValue, stack)"
| "parse_step ExpectCommaOrEnd (InObject # stack) Comma = Some (ExpectKey, InObject # stack)"
| "parse_step ExpectCommaOrEnd (InArray # stack) Comma = Some (ExpectValue, InArray # stack)"
| "parse_step ExpectCommaOrEnd (InObject # stack) RBrace = Some (ExpectCommaOrEnd, stack)"
| "parse_step ExpectCommaOrEnd (InArray # stack) RBracket = Some (ExpectCommaOrEnd, stack)"
| "parse_step e stack t = None"

fun parse_tokens :: "expect \<Rightarrow> container list \<Rightarrow> token list \<Rightarrow> bool" where
  "parse_tokens e stack [] = (e = ExpectCommaOrEnd \<and> stack = [])"
| "parse_tokens e stack (t # ts) =
     (case parse_step e stack t of
        None \<Rightarrow> False
      | Some (e', stack') \<Rightarrow> parse_tokens e' stack' ts)"

definition is_json :: "string \<Rightarrow> bool" where
  "is_json s = (case tokens s of None \<Rightarrow> False | Some ts \<Rightarrow> parse_tokens ExpectValue [] ts)"

definition is_json_object :: "string \<Rightarrow> bool" where
  "is_json_object s =
     (case tokens s of
        Some (LBrace # ts) \<Rightarrow> parse_tokens ExpectValue [] (LBrace # ts)
      | _ \<Rightarrow> False)"

text \<open>The members of an object whose values are strings, numbers and literals, in the
  order of the text.\<close>

fun flat_members :: "token list \<Rightarrow> (string \<times> token) list option" where
  "flat_members [TString k, Colon, v, RBrace] = (if is_scalar v then Some [(k, v)] else None)"
| "flat_members (TString k # Colon # v # Comma # rest) =
     (if is_scalar v then map_option ((#) (k, v)) (flat_members rest) else None)"
| "flat_members ts = None"

definition object_members :: "string \<Rightarrow> (string \<times> token) list option" where
  "object_members s =
     (case tokens s of
        Some (LBrace # ts) \<Rightarrow> (if ts = [RBrace] then Some [] else flat_members ts)
      | _ \<Rightarrow> None)"

subsection \<open>A sample of std::stod\<close>

text \<open>
  The values \<open>std::stod\<close> returns on the price strings of the examples below: the
  binary64 numbers nearest to 1901.87 and 1902.12, which are
  \<open>0x1.db77ae147ae14p+10\<close> and \<open>0x1.db87ae147ae14p+10\<close>. On the empty string
  \<open>std::stod\<close> throws \<open>std::invalid_argument\<close>. The table stands for
  \<open>std::stod\<close> on these three strings only; it instantiates the parameter \<open>stod\<close>
  where a property is evaluated on a concrete frame.
\<close>

definition stod_sample :: stod_fn where
  "stod_sample s =
     (if s = ''1901.87'' then Ok (Finite False 8364512718073364 (- 42))
      else if s = ''1902.12'' then Ok (Finite False 8365612229701140 (- 42))
      else Throw InvalidArgument)"

text \<open>A runtime under which every operation fails.\<close>

definition always_fails :: "nat \<Rightarrow> io_op \<Rightarrow> completion" where
  "always_fails k op = \<lparr>ec = True, sni_ok = True, message = [], now = 0\<rparr>"

subsection \<open>Frames\<close>

text \<open>The Kraken tick and the heartbeat of the specification's scenarios.\<close>

definition kraken_tick_frame :: string where
  \<open>kraken_tick_frame =
     ''[340,{"a":["1902.12",1,"1.234"],"b":["1901.87",2,"2.345"],"c":["1902.00","0.01"]},"ticker","ETH/USDT"]''\<close>

definition heartbeat_frame :: string where
  \<open>heartbeat_frame = ''{"event":"heartbeat"}''\<close>

text \<open>
  The keys of each venue's tick, from the frame shapes of the specification. On Kraken
  \<open>ticker\<close> is the channel name, which the frame carries as a string.
\<close>

fun required_keys :: "venue \<Rightarrow> string list" where
  "required_keys Binance = [''s'', ''b'', ''a'']"
| "required_keys Kraken = [''ticker'', ''b'', ''a'']"
| "required_keys Coinbase = [''type'', ''product_id'', ''best_bid'', ''best_ask'']"
| "required_keys Bybit = [''topic'', ''data'', ''symbol'', ''bid1Price'', ''ask1Price'']"
| "required_keys OKX = [''data'', ''instId'', ''bidPx'', ''askPx'']"

text \<open>
  A parser reads a frame as a text. \<open>after_first pat s\<close> is what follows the first
  occurrence of \<open>pat\<close> in \<open>s\<close>; \<open>first_quoted s\<close> is what stands between the first
  two double quotes of \<open>s\<close> (nothing when \<open>s\<close> has fewer), and \<open>last_quoted s\<close> what
  stands between its last two. \<open>member_text frame k\<close>, the text of the key \<open>k\<close>, is the
  first quoted text from the first colon on that follows the first occurrence of the
  quoted key; \<open>array_text\<close> is the same with an opening bracket for the colon.
  \<open>opens_array frame\<close>: the first character of the frame other than space, tab, line
  feed and carriage return is an opening bracket.
\<close>

fun after_first :: "string \<Rightarrow> string \<Rightarrow> string option" where
  "after_first pat [] = (if pat = [] then Some [] else None)"
| "after_first pat (c # cs) =
     (if prefix pat (c # cs) then Some (drop (length pat) (c # cs)) else after_first pat cs)"

definition first_quoted :: "string \<Rightarrow> string" where
  "first_quoted s =
     (case dropWhile (\<lambda>c. c \<noteq> CHR 0x22) s of
        [] \<Rightarrow> []
      | q # r \<Rightarrow> if CHR 0x22 \<in> set r then takeWhile (\<lambda>c. c \<noteq> CHR 0x22) r else [])"

definition last_quoted :: "string \<Rightarrow> string option" where
  "last_quoted s =
     (case dropWhile (\<lambda>c. c \<noteq> CHR 0x22) (rev s) of
        [] \<Rightarrow> None
      | q # r \<Rightarrow>
          if CHR 0x22 \<in> set r then Some (rev (takeWhile (\<lambda>c. c \<noteq> CHR 0x22) r)) else None)"

definition text_after :: "char \<Rightarrow> string \<Rightarrow> string \<Rightarrow> string" where
  "text_after sep frame k =
     (case after_first (quoted k) frame of
        None \<Rightarrow> []
      | Some r \<Rightarrow> first_quoted (dropWhile (\<lambda>c. c \<noteq> sep) r))"

definition member_text :: "string \<Rightarrow> string \<Rightarrow> string" where
  "member_text = text_after (CHR '':'')"

definition array_text :: "string \<Rightarrow> string \<Rightarrow> string" where
  "array_text = text_after (CHR ''['')"

definition opens_array :: "string \<Rightarrow> bool" where
  "opens_array frame =
     (case dropWhile (\<lambda>c. c \<in> set [CHR '' '', CHR 0x09, CHR 0x0A, CHR 0x0D]) frame of
        [] \<Rightarrow> False
      | c # r \<Rightarrow> c = CHR ''['')"

text \<open>
  The textual shape of a venue's tick. \<open>tick_frame\<close> is what marks a frame as a tick:
  on Binance the quoted keys \<open>s\<close>, \<open>b\<close>, \<open>a\<close> occur; on Kraken the frame opens an array
  and the quoted channel name \<open>ticker\<close> occurs; on Coinbase the text of \<open>type\<close> is
  \<open>ticker\<close> and the quoted keys \<open>product_id\<close>, \<open>best_bid\<close>, \<open>best_ask\<close> occur; on Bybit
  the quoted keys \<open>topic\<close> and \<open>data\<close> occur and the text of \<open>topic\<close> starts with
  \<open>tickers.\<close>; on OKX the quoted key \<open>data\<close> occurs. \<open>symbol_text\<close>, \<open>bid_text\<close> and
  \<open>ask_text\<close> are the three texts of a tick. \<open>tick_text v frame\<close>: the frame is marked
  as a tick of \<open>v\<close>, its symbol text is a symbol of \<open>v\<close>, and its bid text and ask text
  are not empty. \<open>tick_records\<close> is the record of such a frame: one record when
  \<open>std::stod\<close> accepts the bid text and the ask text, none otherwise.
\<close>

fun tick_frame :: "venue \<Rightarrow> string \<Rightarrow> bool" where
  "tick_frame Binance f =
     (sublist (quoted ''s'') f \<and> sublist (quoted ''b'') f \<and> sublist (quoted ''a'') f)"
| "tick_frame Kraken f = (opens_array f \<and> sublist (quoted ''ticker'') f)"
| "tick_frame Coinbase f =
     (member_text f ''type'' = ''ticker'' \<and> sublist (quoted ''product_id'') f
      \<and> sublist (quoted ''best_bid'') f \<and> sublist (quoted ''best_ask'') f)"
| "tick_frame Bybit f =
     (sublist (quoted ''topic'') f \<and> sublist (quoted ''data'') f
      \<and> prefix ''tickers.'' (member_text f ''topic''))"
| "tick_frame OKX f = sublist (quoted ''data'') f"

fun symbol_text :: "venue \<Rightarrow> string \<Rightarrow> string" where
  "symbol_text Binance f = map tolower (member_text f ''s'')"
| "symbol_text Kraken f = (case last_quoted f of None \<Rightarrow> [] | Some s \<Rightarrow> s)"
| "symbol_text Coinbase f = member_text f ''product_id''"
| "symbol_text Bybit f = member_text f ''symbol''"
| "symbol_text OKX f = member_text f ''instId''"

fun bid_text :: "venue \<Rightarrow> string \<Rightarrow> string" where
  "bid_text Binance f = member_text f ''b''"
| "bid_text Kraken f = array_text f ''b''"
| "bid_text Coinbase f = member_text f ''best_bid''"
| "bid_text Bybit f = member_text f ''bid1Price''"
| "bid_text OKX f = member_text f ''bidPx''"

fun ask_text :: "venue \<Rightarrow> string \<Rightarrow> string" where
  "ask_text Binance f = member_text f ''a''"
| "ask_text Kraken f = array_text f ''a''"
| "ask_text Coinbase f = member_text f ''best_ask''"
| "ask_text Bybit f = member_text f ''ask1Price''"
| "ask_text OKX f = member_text f ''askPx''"

definition tick_text :: "venue \<Rightarrow> string \<Rightarrow> bool" where
  "tick_text v f =
     (tick_frame v f \<and> reverse_mapping v (symbol_text v f) \<noteq> None
      \<and> bid_text v f \<noteq> [] \<and> ask_text v f \<noteq> [])"

definition tick_records :: "venue \<Rightarrow> stod_fn \<Rightarrow> int \<Rightarrow> string \<Rightarrow> PriceUpdate list" where
  "tick_records v stod t0 f =
     (case reverse_mapping v (symbol_text v f) of
        None \<Rightarrow> []
      | Some normalized \<Rightarrow>
          (case stod (bid_text v f) of
             Throw e \<Rightarrow> []
           | Ok b \<Rightarrow>
               (case stod (ask_text v f) of
                  Throw e \<Rightarrow> []
                | Ok a \<Rightarrow>
                    [\<lparr>exchange = venue_name v, pair = normalized,
                      bid = b, ask = a, timestamp = t0\<rparr>])))"

text \<open>
  Three frames that hold the quoted name of every key of their venue and are not ticks: an
  object on Kraken, an order book on Bybit, a status message on Coinbase.
\<close>

definition kraken_object_frame :: string where
  \<open>kraken_object_frame =
     ''{"channel":"ticker","a":["1902.12",1,"1.234"],"b":["1901.87",2,"2.345"],"pair":"ETH/USDT"}''\<close>

definition bybit_orderbook_frame :: string where
  \<open>bybit_orderbook_frame =
     ''{"topic":"orderbook.1.BTCUSDT","data":{"symbol":"BTCUSDT","bid1Price":"1901.87","ask1Price":"1902.12"}}''\<close>

definition coinbase_status_frame :: string where
  \<open>coinbase_status_frame =
     ''{"type":"status","product_id":"BTC-USDT","best_bid":"1901.87","best_ask":"1902.12"}''\<close>

text \<open>
  The tick shape of Binance, \<open>{"s":SYM,"b":BID,"a":ASK,...}\<close>: a JSON object that has
  the members \<open>s\<close>, \<open>b\<close> and \<open>a\<close>, each a string.
\<close>

definition is_string_member :: "(string \<times> token) list \<Rightarrow> string \<Rightarrow> bool" where
  "is_string_member ms k = (case map_of ms k of Some (TString s) \<Rightarrow> True | _ \<Rightarrow> False)"

definition binance_tick_shape :: "string \<Rightarrow> bool" where
  "binance_tick_shape frame =
     (case object_members frame of
        None \<Rightarrow> False
      | Some ms \<Rightarrow> is_string_member ms ''s'' \<and> is_string_member ms ''b'' \<and> is_string_member ms ''a'')"

text \<open>A frame without the member \<open>b\<close>: the text \<open>"b"\<close> occurs in it as a value.\<close>

definition binance_odd_frame :: string where
  \<open>binance_odd_frame = ''{"s":"BTCUSDT","x":"b","a":"1902.12"}''\<close>

subsection \<open>Records and their rendering\<close>

text \<open>
  \<open>json_safe s\<close>: every character of \<open>s\<close> may stand in a JSON string as it is (no
  quotation mark, no backslash, no control character). \<open>fixed_point_8 s\<close>: \<open>s\<close> is an
  optional minus sign, one or more digits, a point and exactly eight digits.
\<close>

definition json_safe :: "string \<Rightarrow> bool" where
  "json_safe s = list_all (\<lambda>c. c \<noteq> CHR 0x22 \<and> c \<noteq> CHR 0x5C \<and> \<not> is_control c) s"

text \<open>The whitespace characters of the C locale: space, tab, line feed, vertical tab,
  form feed and carriage return.\<close>

definition is_whitespace :: "char \<Rightarrow> bool" where
  "is_whitespace c = (c \<in> set [CHR 0x20, CHR 0x09, CHR 0x0A, CHR 0x0B, CHR 0x0C, CHR 0x0D])"

fun is_finite :: "double \<Rightarrow> bool" where
  "is_finite (Finite neg m e) = True"
| "is_finite d = False"

definition fixed_point_8 :: "string \<Rightarrow> bool" where
  "fixed_point_8 s =
     (let t = (case s of [] \<Rightarrow> [] | c # r \<Rightarrow> if c = CHR ''-'' then r else s);
          int_part = takeWhile is_digit t;
          rest = dropWhile is_digit t
      in int_part \<noteq> [] \<and>
         (case rest of
            [] \<Rightarrow> False
          | c # frac \<Rightarrow> c = CHR ''.'' \<and> length frac = 8 \<and> list_all is_digit frac))"

text \<open>The record of the specification's first scenario: bid 27000.10 and ask 27000.20 as
  binary64 numbers (\<open>0x1.a5e0666666666p+14\<close> and \<open>0x1.a5e0ccccccccdp+14\<close>), received
  1700000000000 ms after the epoch.\<close>

definition sample_update :: PriceUpdate where
  "sample_update =
     \<lparr>exchange = ''Binance'', pair = ''BTC/USDT'',
      bid = Finite False 7421730975278694 (- 38),
      ask = Finite False 7421758463069389 (- 38),
      timestamp = 1700000000000000000\<rparr>"

subsection \<open>Notions for the reconnection cap\<close>

text \<open>\<open>all_fail env\<close>: whenever a resolve completes without error, the connect that
  follows it fails. \<open>awaiting_resolve k s\<close>: the session is running, has counted \<open>k\<close>
  attempts, and waits for a resolve and nothing else.\<close>

definition all_fail :: "(nat \<Rightarrow> io_op \<Rightarrow> completion) \<Rightarrow> bool" where
  "all_fail env = (\<forall>j. ec (env j AsyncResolve) \<or> ec (env (Suc j) AsyncConnect))"

definition awaiting_resolve :: "nat \<Rightarrow> session \<Rightarrow> bool" where
  "awaiting_resolve k s =
     (running s \<and> reconnect_attempts s = int k \<and> pending s = [AsyncResolve])"

abbreviation no_connect :: "io_op list \<Rightarrow> io_op list" where
  "no_connect ops \<equiv> filter (\<lambda>op. op \<noteq> AsyncConnect) ops"

text \<open>
  \<open>history vt env i n s\<close>: what happens during the first \<open>n\<close> completions of
  \<open>drive vt env i n s\<close>, in order: \<open>Done op\<close> when the operation \<open>op\<close> completes and its
  handler starts, then \<open>Call op'\<close> for each I/O call the handler makes (what it adds to
  \<open>issued\<close>). \<open>backoff_rounds_history d\<close> is \<open>d\<close> rounds of: a resolve completes, the
  socket is closed, the 5-second timer is set, the timer completes, the next resolve is
  called.
\<close>

datatype occurrence = Done io_op | Call io_op

fun history ::
  "vtable \<Rightarrow> (nat \<Rightarrow> io_op \<Rightarrow> completion) \<Rightarrow> nat \<Rightarrow> nat \<Rightarrow> session \<Rightarrow> occurrence list" where
  "history vt env i 0 s = []"
| "history vt env i (Suc n) s =
     (case pending s of
        [] \<Rightarrow> []
      | op # ops \<Rightarrow>
          let s' = complete vt op (env i op) (s\<lparr>pending := ops\<rparr>)
          in Done op # map Call (drop (length (issued s)) (issued s'))
             @ history vt env (Suc i) n s')"

abbreviation no_connects :: "occurrence list \<Rightarrow> occurrence list" where
  "no_connects h \<equiv> filter (\<lambda>x. x \<noteq> Done AsyncConnect \<and> x \<noteq> Call AsyncConnect) h"

definition backoff_rounds_history :: "nat \<Rightarrow> occurrence list" where
  "backoff_rounds_history d =
     concat (replicate d
       [Done AsyncResolve, Call SocketClose, Call (TimerWait 5), Done (TimerWait 5),
        Call AsyncResolve])"

subsection \<open>Notions for the server and for rendered numbers\<close>

text \<open>The client list holds each socket once, and only sockets that were accepted.\<close>

definition server_inv :: "server \<Rightarrow> bool" where
  "server_inv st = (distinct (clients st) \<and> (\<forall>c \<in> set (clients st). c < next_socket st))"

text \<open>The write outcomes of a broadcast in which the socket 1 fails.\<close>

definition one_fails :: "nat \<Rightarrow> write_result" where
  "one_fails c = (if c = 1 then WriteError 3 else WriteOk)"

text \<open>A natural number, read from the start of a value or after a minus sign.\<close>

definition nat_state :: "nat \<Rightarrow> num_state" where
  "nat_state n = (if n = 0 then AfterZero else IntDigits)"

text \<open>A character that ends a number.\<close>

definition ends_number :: "char \<Rightarrow> bool" where
  "ends_number c = (\<not> is_digit c \<and> c \<noteq> CHR ''.'' \<and> \<not> is_exp_mark c)"


section \<open>The session: reconnection\<close>

lemmas session_defs =
  start_def stop_def resolve_def reconnect_def connect_def ssl_handshake_def ws_handshake_def
  read_def subscribe_def on_resolve_def on_connect_def on_ssl_handshake_def on_ws_handshake_def
  on_subscribe_def on_read_def on_timer_def async_def sync_def

subsection \<open>The attempt counter stays within its bounds\<close>

lemma reconnect_attempts_reconnect:
  "reconnect_attempts (reconnect s) =
     (if running s \<and> reconnect_attempts s < MAX_RECONNECT_ATTEMPTS
      then reconnect_attempts s + 1 else reconnect_attempts s)"
  by (simp add: reconnect_def async_def sync_def Let_def)

lemma reconnect_attempts_complete:
  "reconnect_attempts (complete vt op c s) = reconnect_attempts s
   \<or> (reconnect_attempts (complete vt op c s) = 0 \<and> op = AsyncWsHandshake \<and> \<not> ec c)
   \<or> (reconnect_attempts (complete vt op c s) = reconnect_attempts s + 1
        \<and> reconnect_attempts s < MAX_RECONNECT_ATTEMPTS \<and> running s)"
  by (cases op) (auto simp: session_defs Let_def split: result.splits)

lemma reconnect_attempts_fire:
  "reconnect_attempts (fire vt e s) = reconnect_attempts s
   \<or> (reconnect_attempts (fire vt e s) = 0
        \<and> (e = Start \<or> (\<exists>c. e = Completes AsyncWsHandshake c \<and> \<not> ec c)))
   \<or> (reconnect_attempts (fire vt e s) = reconnect_attempts s + 1
        \<and> reconnect_attempts s < MAX_RECONNECT_ATTEMPTS \<and> running s)"
proof (cases e)
  case Start
  then show ?thesis by (simp add: start_def resolve_def async_def)
next
  case Stop
  then show ?thesis by (simp add: stop_def sync_def)
next
  case (Completes op c)
  show ?thesis
  proof (cases "op \<in> set (pending s)")
    case True
    with Completes reconnect_attempts_complete [of vt op c "s\<lparr>pending := remove1 op (pending s)\<rparr>"]
    show ?thesis by auto
  next
    case False
    with Completes show ?thesis by simp
  qed
qed

lemma fire_bounded:
  assumes "0 \<le> reconnect_attempts s" "reconnect_attempts s \<le> MAX_RECONNECT_ATTEMPTS"
  shows "0 \<le> reconnect_attempts (fire vt e s)
         \<and> reconnect_attempts (fire vt e s) \<le> MAX_RECONNECT_ATTEMPTS"
  using assms reconnect_attempts_fire [of vt e s]
  by (auto simp: MAX_RECONNECT_ATTEMPTS_def)

lemma run_snoc: "run vt (events @ [e]) = fire vt e (run vt events)"
  by (simp add: run_def)

lemma run_bounded:
  "0 \<le> reconnect_attempts (run vt events)
   \<and> reconnect_attempts (run vt events) \<le> MAX_RECONNECT_ATTEMPTS"
proof (induction events rule: rev_induct)
  case Nil
  show ?case by (simp add: run_def WebSocketClient_def MAX_RECONNECT_ATTEMPTS_def)
next
  case (snoc e events)
  then show ?case using fire_bounded [of "run vt events" vt e] by (simp add: run_snoc)
qed

text \<open>
  Claim C9. In every state a session reaches from its constructor, by any sequence of
  \<open>start\<close>, \<open>stop\<close> and completions of pending operations with any outcome, the attempt
  counter is between 0 and 10. The constructor, \<open>start\<close> and a successful WebSocket
  handshake set it to 0; \<open>reconnect\<close> adds exactly 1 when the session is running and the
  counter is below 10, and leaves it alone otherwise; and an event changes the counter in
  no other way than these.
\<close>

theorem reconnect_counter_invariant:
  "(\<forall>events. 0 \<le> reconnect_attempts (run vt events) \<and> reconnect_attempts (run vt events) \<le> 10)
   \<and> reconnect_attempts WebSocketClient = 0
   \<and> reconnect_attempts (start s) = 0
   \<and> reconnect_attempts (on_ws_handshake vt False s) = 0
   \<and> reconnect_attempts (reconnect s) =
        (if running s \<and> reconnect_attempts s < 10 then reconnect_attempts s + 1
         else reconnect_attempts s)
   \<and> (\<forall>e. reconnect_attempts (fire vt e s) = reconnect_attempts s
          \<or> (reconnect_attempts (fire vt e s) = 0
               \<and> (e = Start \<or> (\<exists>c. e = Completes AsyncWsHandshake c \<and> \<not> ec c)))
          \<or> (reconnect_attempts (fire vt e s) = reconnect_attempts s + 1
               \<and> reconnect_attempts s < 10 \<and> running s))"
proof -
  have a: "\<forall>events. 0 \<le> reconnect_attempts (run vt events) \<and> reconnect_attempts (run vt events) \<le> 10"
    using run_bounded [of vt] by (simp add: MAX_RECONNECT_ATTEMPTS_def)
  have b: "reconnect_attempts WebSocketClient = 0"
    by (simp add: WebSocketClient_def)
  have c: "reconnect_attempts (start s) = 0"
    by (simp add: start_def resolve_def async_def)
  have d: "reconnect_attempts (on_ws_handshake vt False s) = 0"
    by (simp add: on_ws_handshake_def subscribe_def read_def async_def)
  have e: "reconnect_attempts (reconnect s) =
        (if running s \<and> reconnect_attempts s < 10 then reconnect_attempts s + 1
         else reconnect_attempts s)"
    using reconnect_attempts_reconnect [of s] by (simp add: MAX_RECONNECT_ATTEMPTS_def)
  have f: "\<forall>e. reconnect_attempts (fire vt e s) = reconnect_attempts s
          \<or> (reconnect_attempts (fire vt e s) = 0
               \<and> (e = Start \<or> (\<exists>c. e = Completes AsyncWsHandshake c \<and> \<not> ec c)))
          \<or> (reconnect_attempts (fire vt e s) = reconnect_attempts s + 1
               \<and> reconnect_attempts s < 10 \<and> running s)"
    using reconnect_attempts_fire [of vt _ s] by (simp add: MAX_RECONNECT_ATTEMPTS_def)
  from a b c d e f show ?thesis by blast
qed

text \<open>The invariant at a Binance session that was started and has met one failed resolve.\<close>

theorem reconnect_counter_invariant_witness:
  "reconnect_attempts
     (run (client_vtable Binance stod_sample (pair_assignments Binance))
        [Start, Completes AsyncResolve (always_fails 0 AsyncResolve)]) \<le> 10
   \<and> reconnect_attempts (reconnect (start WebSocketClient)) = 1"
  using reconnect_counter_invariant
    [of "client_vtable Binance stod_sample (pair_assignments Binance)" "start WebSocketClient"]
  by (simp add: start_def resolve_def async_def WebSocketClient_def)

subsection \<open>The counter is reset by a successful WebSocket handshake\<close>

lemma on_read_ok_keeps:
  "running s \<Longrightarrow> reconnect_attempts s = 0 \<Longrightarrow>
   running (on_read vt False n m s) \<and> reconnect_attempts (on_read vt False n m s) = 0"
  by (simp add: on_read_def read_def async_def Let_def split: result.splits)

lemma frames_read_keep:
  "running s \<Longrightarrow> reconnect_attempts s = 0 \<Longrightarrow>
   running (foldl (\<lambda>s (n, m). on_read vt False n m s) s frames)
   \<and> reconnect_attempts (foldl (\<lambda>s (n, m). on_read vt False n m s) s frames) = 0"
proof (induction frames arbitrary: s)
  case Nil
  then show ?case by simp
next
  case (Cons f frames)
  obtain n m where f: "f = (n, m)" by (cases f)
  from Cons.prems on_read_ok_keeps [of s vt n m]
  have "running (on_read vt False n m s)" "reconnect_attempts (on_read vt False n m s) = 0"
    by simp_all
  from Cons.IH [OF this] f show ?case by simp
qed

lemma reconnect_first_failure:
  "running s \<Longrightarrow> reconnect_attempts s = 0 \<Longrightarrow>
   reconnect_attempts (reconnect s) = 1
   \<and> issued (reconnect s) = issued s @ [SocketClose, TimerWait 5]
   \<and> pending (reconnect s) = pending s @ [TimerWait 5]"
  by (simp add: reconnect_def async_def sync_def Let_def MAX_RECONNECT_ATTEMPTS_def
      RECONNECT_DELAY_SECONDS_def)

lemma ws_handshake_ok_state:
  "running s \<Longrightarrow>
   running (on_ws_handshake vt False s) \<and> reconnect_attempts (on_ws_handshake vt False s) = 0"
  by (simp add: on_ws_handshake_def subscribe_def read_def async_def)

lemma subscribe_ok_state:
  "running s \<Longrightarrow> reconnect_attempts s = 0 \<Longrightarrow>
   running (on_subscribe False s) \<and> reconnect_attempts (on_subscribe False s) = 0"
  by (simp add: on_subscribe_def read_def async_def)

text \<open>
  Claim C2. In a running session, right after the WebSocket handshake succeeds the attempt
  counter is 0. It is still 0 after the subscription is written and after any number of
  frames read without error. The first failure from there, of the subscription write or
  of a read, closes the socket and starts the 5-second timer with the counter at 1.
\<close>

theorem counter_reset_on_ws_handshake:
  assumes "running s"
  shows "let s1 = on_ws_handshake vt False s;
             s2 = (if vt_subscribe_message vt = [] then s1 else on_subscribe False s1);
             s3 = foldl (\<lambda>s (n, m). on_read vt False n m s) s2 frames
         in reconnect_attempts s1 = 0
            \<and> reconnect_attempts (on_subscribe True s1) = 1
            \<and> issued (on_subscribe True s1) = issued s1 @ [SocketClose, TimerWait 5]
            \<and> reconnect_attempts s3 = 0
            \<and> reconnect_attempts (on_read vt True n m s3) = 1
            \<and> issued (on_read vt True n m s3) = issued s3 @ [SocketClose, TimerWait 5]"
proof -
  define s1 where "s1 = on_ws_handshake vt False s"
  define s2 where "s2 = (if vt_subscribe_message vt = [] then s1 else on_subscribe False s1)"
  define s3 where "s3 = foldl (\<lambda>s (n, m). on_read vt False n m s) s2 frames"
  have r1: "running s1" "reconnect_attempts s1 = 0"
    using ws_handshake_ok_state [OF assms, of vt] by (simp_all add: s1_def)
  have r2: "running s2" "reconnect_attempts s2 = 0"
    using r1 subscribe_ok_state [of s1] by (simp_all add: s2_def)
  have r3: "running s3" "reconnect_attempts s3 = 0"
    using frames_read_keep [OF r2, of vt frames] by (simp_all add: s3_def)
  have f1: "reconnect_attempts (on_subscribe True s1) = 1"
    "issued (on_subscribe True s1) = issued s1 @ [SocketClose, TimerWait 5]"
    using reconnect_first_failure [OF r1] by (simp_all add: on_subscribe_def)
  have f3: "reconnect_attempts (on_read vt True n m s3) = 1"
    "issued (on_read vt True n m s3) = issued s3 @ [SocketClose, TimerWait 5]"
    using reconnect_first_failure [OF r3] by (simp_all add: on_read_def)
  from r1 r3 f1 f3 show ?thesis
    unfolding s1_def [symmetric] s2_def [symmetric] s3_def [symmetric] Let_def
    by (simp add: s1_def [symmetric] s2_def [symmetric] s3_def [symmetric])
qed

text \<open>The property at a started Kraken session that reads the example tick and then
  meets a read error.\<close>

theorem counter_reset_on_ws_handshake_witness:
  \<open>running (start WebSocketClient)
   \<and> (let vt = client_vtable Kraken stod_sample (pair_assignments Kraken);
           s1 = on_ws_handshake vt False (start WebSocketClient);
           s2 = (if vt_subscribe_message vt = [] then s1 else on_subscribe False s1);
           s3 = foldl (\<lambda>s (n, m). on_read vt False n m s) s2 [(0, ''{"event":"heartbeat"}'')]
       in reconnect_attempts s1 = 0
          \<and> reconnect_attempts (on_subscribe True s1) = 1
          \<and> issued (on_subscribe True s1) = issued s1 @ [SocketClose, TimerWait 5]
          \<and> reconnect_attempts s3 = 0
          \<and> reconnect_attempts (on_read vt True 1 [] s3) = 1
          \<and> issued (on_read vt True 1 [] s3) = issued s3 @ [SocketClose, TimerWait 5])\<close>
proof -
  have r: "running (start WebSocketClient)"
    by (simp add: start_def resolve_def async_def)
  note w = counter_reset_on_ws_handshake
    [OF r, where vt = "client_vtable Kraken stod_sample (pair_assignments Kraken)"
       and frames = \<open>[(0, ''{"event":"heartbeat"}'')]\<close> and n = 1 and m = "[]"]
  from r w show ?thesis by (simp only: Let_def simp_thms)
qed

subsection \<open>The reconnection cap\<close>

lemma drive_quiescent: "pending s = [] \<Longrightarrow> drive vt env i n s = s"
  by (cases n) simp_all

lemma drive_add:
  "drive vt env i (n + m) s = drive vt env (i + n) m (drive vt env i n s)"
proof (induction n arbitrary: i s)
  case 0
  show ?case by simp
next
  case (Suc n)
  show ?case
  proof (cases "pending s")
    case Nil
    then show ?thesis by (simp add: drive_quiescent)
  next
    case (Cons op ops)
    then show ?thesis using Suc.IH by simp
  qed
qed

lemma history_quiescent: "pending s = [] \<Longrightarrow> history vt env i n s = []"
  by (cases n) simp_all

lemma history_add:
  "history vt env i (n + m) s =
     history vt env i n s @ history vt env (i + n) m (drive vt env i n s)"
proof (induction n arbitrary: i s)
  case 0
  show ?case by simp
next
  case (Suc n)
  show ?case
  proof (cases "pending s")
    case Nil
    then show ?thesis by (simp add: history_quiescent drive_quiescent)
  next
    case (Cons op ops)
    then show ?thesis using Suc.IH by (simp add: Let_def)
  qed
qed

text \<open>A handler only adds to the log of calls.\<close>

lemma issued_reconnect: "prefix (issued s) (issued (reconnect s))"
  by (simp add: reconnect_def sync_def async_def Let_def)

lemma issued_complete: "prefix (issued s) (issued (complete vt op c s))"
  by (cases op)
    (auto simp: session_defs Let_def prefix_def split: result.splits)

lemma backoff_round_history:
  assumes env: "all_fail env" and s: "awaiting_resolve k s" and k: "k < 10"
  shows "\<exists>n\<le>3. awaiting_resolve (Suc k) (drive vt env i n s)
           \<and> no_connect (issued (drive vt env i n s)) =
               no_connect (issued s) @ [SocketClose, TimerWait 5, AsyncResolve]
           \<and> no_connects (history vt env i n s) = backoff_rounds_history 1"
proof (cases "ec (env i AsyncResolve)")
  case True
  have "awaiting_resolve (Suc k) (drive vt env i 2 s)
        \<and> no_connect (issued (drive vt env i 2 s)) =
            no_connect (issued s) @ [SocketClose, TimerWait 5, AsyncResolve]
        \<and> no_connects (history vt env i 2 s) = backoff_rounds_history 1"
    using s k True
    by (simp add: awaiting_resolve_def numeral_2_eq_2 session_defs Let_def
        MAX_RECONNECT_ATTEMPTS_def RECONNECT_DELAY_SECONDS_def backoff_rounds_history_def)
  then show ?thesis by (intro exI [of _ 2]) simp
next
  case False
  with env have c: "ec (env (Suc i) AsyncConnect)" by (auto simp: all_fail_def)
  have "awaiting_resolve (Suc k) (drive vt env i 3 s)
        \<and> no_connect (issued (drive vt env i 3 s)) =
            no_connect (issued s) @ [SocketClose, TimerWait 5, AsyncResolve]
        \<and> no_connects (history vt env i 3 s) = backoff_rounds_history 1"
    using s k False c
    by (simp add: awaiting_resolve_def numeral_3_eq_3 session_defs Let_def
        MAX_RECONNECT_ATTEMPTS_def RECONNECT_DELAY_SECONDS_def backoff_rounds_history_def)
  then show ?thesis by (intro exI [of _ 3]) simp
qed

lemma last_failure_history:
  assumes env: "all_fail env" and s: "awaiting_resolve 10 s"
  shows "\<exists>n\<le>2. pending (drive vt env i n s) = []
           \<and> reconnect_attempts (drive vt env i n s) = 10
           \<and> no_connect (issued (drive vt env i n s)) = no_connect (issued s)
           \<and> no_connects (history vt env i n s) = [Done AsyncResolve]"
proof (cases "ec (env i AsyncResolve)")
  case True
  have "pending (drive vt env i 1 s) = []
           \<and> reconnect_attempts (drive vt env i 1 s) = 10
           \<and> no_connect (issued (drive vt env i 1 s)) = no_connect (issued s)
           \<and> no_connects (history vt env i 1 s) = [Done AsyncResolve]"
    using s True
    by (simp add: awaiting_resolve_def session_defs Let_def MAX_RECONNECT_ATTEMPTS_def)
  then show ?thesis by (intro exI [of _ 1]) simp
next
  case False
  with env have c: "ec (env (Suc i) AsyncConnect)" by (auto simp: all_fail_def)
  have "pending (drive vt env i 2 s) = []
           \<and> reconnect_attempts (drive vt env i 2 s) = 10
           \<and> no_connect (issued (drive vt env i 2 s)) = no_connect (issued s)
           \<and> no_connects (history vt env i 2 s) = [Done AsyncResolve]"
    using s False c
    by (simp add: awaiting_resolve_def numeral_2_eq_2 session_defs Let_def
        MAX_RECONNECT_ATTEMPTS_def)
  then show ?thesis by (intro exI [of _ 2]) simp
qed

lemma backoff_rounds_history_Suc:
  "backoff_rounds_history (Suc d) = backoff_rounds_history 1 @ backoff_rounds_history d"
  by (simp add: backoff_rounds_history_def)

lemma backoff_rounds:
  assumes env: "all_fail env"
  shows "awaiting_resolve (10 - d) s \<Longrightarrow> d \<le> 10 \<Longrightarrow>
         \<exists>n\<le>3 * d + 2. pending (drive vt env i n s) = []
           \<and> reconnect_attempts (drive vt env i n s) = 10
           \<and> no_connect (issued (drive vt env i n s)) =
               no_connect (issued s) @ concat (replicate d [SocketClose, TimerWait 5, AsyncResolve])
           \<and> no_connects (history vt env i n s) =
               backoff_rounds_history d @ [Done AsyncResolve]"
proof (induction d arbitrary: i s)
  case 0
  then have "awaiting_resolve 10 s" by simp
  from last_failure_history [OF env this, of vt i]
  obtain n where "n \<le> 2" "pending (drive vt env i n s) = []"
    "reconnect_attempts (drive vt env i n s) = 10"
    "no_connect (issued (drive vt env i n s)) = no_connect (issued s)"
    "no_connects (history vt env i n s) = [Done AsyncResolve]"
    by blast
  then show ?case by (intro exI [of _ n]) (simp add: backoff_rounds_history_def)
next
  case (Suc d)
  from Suc.prems have k: "10 - Suc d < 10" by simp
  from backoff_round_history [OF env Suc.prems(1) k, of vt i]
  obtain n1 where n1: "n1 \<le> 3"
    "awaiting_resolve (Suc (10 - Suc d)) (drive vt env i n1 s)"
    "no_connect (issued (drive vt env i n1 s)) =
       no_connect (issued s) @ [SocketClose, TimerWait 5, AsyncResolve]"
    "no_connects (history vt env i n1 s) = backoff_rounds_history 1"
    by blast
  from Suc.prems have "Suc (10 - Suc d) = 10 - d" by simp
  with n1 have a: "awaiting_resolve (10 - d) (drive vt env i n1 s)" by simp
  from Suc.prems have "d \<le> 10" by simp
  from Suc.IH [OF a this, of "i + n1"]
  obtain n2 where n2: "n2 \<le> 3 * d + 2"
    "pending (drive vt env (i + n1) n2 (drive vt env i n1 s)) = []"
    "reconnect_attempts (drive vt env (i + n1) n2 (drive vt env i n1 s)) = 10"
    "no_connect (issued (drive vt env (i + n1) n2 (drive vt env i n1 s))) =
       no_connect (issued (drive vt env i n1 s))
       @ concat (replicate d [SocketClose, TimerWait 5, AsyncResolve])"
    "no_connects (history vt env (i + n1) n2 (drive vt env i n1 s)) =
       backoff_rounds_history d @ [Done AsyncResolve]"
    by blast
  have "n1 + n2 \<le> 3 * Suc d + 2" using n1(1) n2(1) by simp
  moreover have "pending (drive vt env i (n1 + n2) s) = []"
    using n2(2) by (simp add: drive_add)
  moreover have "reconnect_attempts (drive vt env i (n1 + n2) s) = 10"
    using n2(3) by (simp add: drive_add)
  moreover have "no_connect (issued (drive vt env i (n1 + n2) s)) =
      no_connect (issued s) @ concat (replicate (Suc d) [SocketClose, TimerWait 5, AsyncResolve])"
    using n2(4) n1(3) by (simp add: drive_add)
  moreover have "no_connects (history vt env i (n1 + n2) s) =
      backoff_rounds_history (Suc d) @ [Done AsyncResolve]"
    using n2(5) n1(4) by (simp only: history_add filter_append backoff_rounds_history_Suc append_assoc)
  ultimately show ?case by blast
qed

lemma start_awaiting: "awaiting_resolve 0 (start WebSocketClient)"
  by (simp add: awaiting_resolve_def start_def resolve_def async_def WebSocketClient_def)

text \<open>
  Claim C1. A session is started and then left to the runtime, and every connection
  attempt fails at its resolve or, where the resolve succeeds, at its connect. Then
  after at most 32 completions nothing is pending, so no handler of the session runs
  again and no further call is made. By then the session has counted 10 attempts, and
  its I/O calls, the connects left out, are the first resolve followed by exactly ten
  times: close the socket, wait on a 5-second timer, resolve. Each of the ten retries
  waits for its timer: in the order of events, the connects left out, ten times a resolve
  completes, its failure handler closes the socket and sets the 5-second timer and calls
  nothing else, the timer completes, and only the timer's handler calls the next resolve;
  then the eleventh resolve completes and nothing is called any more.
\<close>

theorem reconnection_cap:
  assumes "\<forall>j. ec (env j AsyncResolve) \<or> ec (env (Suc j) AsyncConnect)"
  shows "\<exists>n\<le>32.
           pending (drive vt env 0 n (start WebSocketClient)) = []
           \<and> (\<forall>m. drive vt env 0 (n + m) (start WebSocketClient)
                  = drive vt env 0 n (start WebSocketClient))
           \<and> reconnect_attempts (drive vt env 0 n (start WebSocketClient)) = 10
           \<and> filter (\<lambda>op. op \<noteq> AsyncConnect) (issued (drive vt env 0 n (start WebSocketClient)))
               = AsyncResolve # concat (replicate 10 [SocketClose, TimerWait 5, AsyncResolve])
           \<and> filter (\<lambda>x. x \<noteq> Done AsyncConnect \<and> x \<noteq> Call AsyncConnect)
                (history vt env 0 n (start WebSocketClient))
               = concat (replicate 10
                   [Done AsyncResolve, Call SocketClose, Call (TimerWait 5),
                    Done (TimerWait 5), Call AsyncResolve])
                 @ [Done AsyncResolve]
           \<and> (\<forall>m. history vt env 0 (n + m) (start WebSocketClient)
                  = history vt env 0 n (start WebSocketClient))"
proof -
  from assms have env: "all_fail env" by (simp add: all_fail_def)
  have a: "awaiting_resolve (10 - 10) (start WebSocketClient)"
    using start_awaiting by simp
  from backoff_rounds [OF env a, of vt 0]
  obtain n where n: "n \<le> 32"
    "pending (drive vt env 0 n (start WebSocketClient)) = []"
    "reconnect_attempts (drive vt env 0 n (start WebSocketClient)) = 10"
    "no_connect (issued (drive vt env 0 n (start WebSocketClient))) =
       no_connect (issued (start WebSocketClient))
       @ concat (replicate 10 [SocketClose, TimerWait 5, AsyncResolve])"
    "no_connects (history vt env 0 n (start WebSocketClient)) =
       backoff_rounds_history 10 @ [Done AsyncResolve]"
    by auto
  have i: "no_connect (issued (start WebSocketClient)) = [AsyncResolve]"
    by (simp add: start_def resolve_def async_def WebSocketClient_def)
  have d: "\<forall>m. drive vt env 0 (n + m) (start WebSocketClient)
                  = drive vt env 0 n (start WebSocketClient)"
    using n(2) by (simp add: drive_add drive_quiescent)
  have h: "\<forall>m. history vt env 0 (n + m) (start WebSocketClient)
                  = history vt env 0 n (start WebSocketClient)"
    using n(2) by (simp add: history_add history_quiescent)
  from n(5) have h10: "no_connects (history vt env 0 n (start WebSocketClient)) =
      concat (replicate 10
                   [Done AsyncResolve, Call SocketClose, Call (TimerWait 5),
                    Done (TimerWait 5), Call AsyncResolve])
                 @ [Done AsyncResolve]"
    by (simp only: backoff_rounds_history_def)
  from n(1,2,3) n(4) [unfolded i] d h h10 show ?thesis
    by (intro exI [of _ n]) (simp only: simp_thms append_Cons append_Nil)
qed

text \<open>The cap under the runtime that fails every operation: the hypothesis holds, and
  the session is quiet after the first resolve and ten rounds.\<close>

theorem reconnection_cap_witness:
  "(\<forall>j. ec (always_fails j AsyncResolve) \<or> ec (always_fails (Suc j) AsyncConnect))
   \<and> (\<exists>n\<le>32.
         pending (drive (client_vtable Binance stod_sample (pair_assignments Binance))
                    always_fails 0 n (start WebSocketClient)) = []
         \<and> reconnect_attempts
              (drive (client_vtable Binance stod_sample (pair_assignments Binance))
                 always_fails 0 n (start WebSocketClient)) = 10
         \<and> filter (\<lambda>x. x \<noteq> Done AsyncConnect \<and> x \<noteq> Call AsyncConnect)
              (history (client_vtable Binance stod_sample (pair_assignments Binance))
                 always_fails 0 n (start WebSocketClient))
            = concat (replicate 10
                   [Done AsyncResolve, Call SocketClose, Call (TimerWait 5),
                    Done (TimerWait 5), Call AsyncResolve])
                 @ [Done AsyncResolve])"
proof -
  let ?vt = "client_vtable Binance stod_sample (pair_assignments Binance)"
  have h: "\<forall>j. ec (always_fails j AsyncResolve) \<or> ec (always_fails (Suc j) AsyncConnect)"
    by (simp add: always_fails_def)
  from reconnection_cap [OF h, of ?vt]
  obtain n where "n \<le> 32"
    "pending (drive ?vt always_fails 0 n (start WebSocketClient)) = []"
    "reconnect_attempts (drive ?vt always_fails 0 n (start WebSocketClient)) = 10"
    "filter (\<lambda>x. x \<noteq> Done AsyncConnect \<and> x \<noteq> Call AsyncConnect)
        (history ?vt always_fails 0 n (start WebSocketClient))
       = concat (replicate 10
                   [Done AsyncResolve, Call SocketClose, Call (TimerWait 5),
                    Done (TimerWait 5), Call AsyncResolve])
                 @ [Done AsyncResolve]"
    by blast
  with h show ?thesis by (intro conjI exI [of _ n]) (simp_all only: simp_thms)
qed


section \<open>The symbol maps\<close>

lemma map_add_upd_one: "m(k \<mapsto> v) ++ g = m ++ (map_of [(k, v)] ++ g)"
  by (rule ext) (simp add: map_add_def split: option.splits)

lemma assign_all_map_of: "assign_all kvs m = m ++ map_of (rev kvs)"
proof (induction kvs arbitrary: m)
  case Nil
  show ?case by (simp add: assign_all_def)
next
  case (Cons kv kvs)
  obtain k v where kv: "kv = (k, v)" by (cases kv)
  have "assign_all (kv # kvs) m = assign_all kvs (m(k \<mapsto> v))"
    unfolding assign_all_def kv by simp
  also have "\<dots> = m(k \<mapsto> v) ++ map_of (rev kvs)" by (rule Cons.IH)
  also have "\<dots> = m ++ (map_of [(k, v)] ++ map_of (rev kvs))" by (rule map_add_upd_one)
  also have "\<dots> = m ++ map_of (rev (kv # kvs))" unfolding kv by simp
  finally show ?case .
qed

lemma pair_mapping_map_of: "pair_mapping v = map_of (rev (pair_assignments v))"
  by (simp add: pair_mapping_def assign_all_map_of)

lemma build_reverse_map_of:
  "build_reverse es = map_of (rev (map (\<lambda>(normalized, fmt). (fmt, normalized)) es))"
  by (simp add: build_reverse_def assign_all_map_of)

text \<open>With keys and values each distinct, the reverse map built in any order is the
  converse of the map.\<close>

lemma build_reverse_converse:
  assumes "distinct (map fst es)" "distinct (map snd es)"
  shows "build_reverse es f = Some c \<longleftrightarrow> map_of es c = Some f"
proof -
  let ?sw = "map (\<lambda>(normalized, fmt). (fmt, normalized)) es"
  have fst_sw: "map fst (rev ?sw) = rev (map snd es)"
    by (simp add: rev_map case_prod_unfold comp_def)
  have set_sw: "(f, c) \<in> set (rev ?sw) \<longleftrightarrow> (c, f) \<in> set es"
    by auto
  have "map_of (rev ?sw) f = Some c \<longleftrightarrow> (f, c) \<in> set (rev ?sw)"
    using assms(2) by (metis distinct_rev fst_sw map_of_eq_Some_iff)
  also have "\<dots> \<longleftrightarrow> (c, f) \<in> set es" by (rule set_sw)
  also have "\<dots> \<longleftrightarrow> map_of es c = Some f"
    using assms(1) by simp
  finally show ?thesis by (simp add: build_reverse_map_of)
qed

lemma pair_mapping_dom: "dom (pair_mapping v) = set canonical_pairs"
  by (cases v) (auto simp: pair_mapping_map_of canonical_pairs_def split: if_splits)

lemma pair_mapping_inj:
  "pair_mapping v c1 = Some f \<Longrightarrow> pair_mapping v c2 = Some f \<Longrightarrow> c1 = c2"
  by (cases v) (auto simp: pair_mapping_map_of split: if_splits)

lemma enumerates_distinct_values:
  assumes "enumerates es (pair_mapping v)"
  shows "distinct (map snd es)"
proof -
  from assms have d: "distinct (map fst es)" and m: "map_of es = pair_mapping v"
    by (simp_all add: enumerates_def)
  have "inj_on snd (set es)"
  proof (rule inj_onI)
    fix x y assume x: "x \<in> set es" and y: "y \<in> set es" and e: "snd x = snd y"
    from d x have "map_of es (fst x) = Some (snd x)" by simp
    moreover from d y have "map_of es (fst y) = Some (snd y)" by simp
    ultimately have "fst x = fst y" using pair_mapping_inj [of v "fst x" "snd x" "fst y"] m e
      by simp
    with e show "x = y" by (simp add: prod_eq_iff)
  qed
  moreover from d have "distinct es" by (simp add: distinct_map)
  ultimately show ?thesis by (simp add: distinct_map)
qed

lemma build_reverse_enumeration:
  assumes "enumerates es (pair_mapping v)"
  shows "build_reverse es f = Some c \<longleftrightarrow> pair_mapping v c = Some f"
proof -
  from assms have d: "distinct (map fst es)" and m: "map_of es = pair_mapping v"
    by (simp_all add: enumerates_def)
  have "build_reverse es f = Some c \<longleftrightarrow> map_of es c = Some f"
    by (rule build_reverse_converse [OF d enumerates_distinct_values [OF assms]])
  with m show ?thesis by simp
qed

lemma assignments_enumerate: "enumerates (pair_assignments v) (pair_mapping v)"
  by (cases v) (auto simp: enumerates_def pair_mapping_map_of)

lemma reverse_mapping_converse:
  "reverse_mapping v f = Some c \<longleftrightarrow> pair_mapping v c = Some f"
  unfolding reverse_mapping_def
  by (rule build_reverse_enumeration [OF assignments_enumerate])

lemma build_reverse_any_order:
  assumes "enumerates es (pair_mapping v)"
  shows "build_reverse es = reverse_mapping v"
proof (rule ext)
  fix f
  show "build_reverse es f = reverse_mapping v f"
  proof (cases "reverse_mapping v f")
    case None
    show ?thesis
    proof (cases "build_reverse es f")
      case None
      with \<open>reverse_mapping v f = None\<close> show ?thesis by simp
    next
      case (Some c)
      with build_reverse_enumeration [OF assms, of f c] reverse_mapping_converse [of v f c]
      have "reverse_mapping v f = Some c" by simp
      with \<open>reverse_mapping v f = None\<close> show ?thesis by simp
    qed
  next
    case (Some c)
    then show ?thesis
      using build_reverse_enumeration [OF assms, of f c] reverse_mapping_converse [of v f c] by simp
  qed
qed

lemma reverse_mapping_canonical:
  "reverse_mapping v f = Some c \<Longrightarrow> c \<in> set canonical_pairs"
  using reverse_mapping_converse [of v f c] pair_mapping_dom [of v] by auto

text \<open>
  Claim C5. For each of the five venues, whatever the order in which the constructor's
  loop visits the entries of the forward map: every canonical pair has a venue symbol
  and the reverse map sends that symbol back to the pair; the reverse map holds nothing
  else; and the forward map is defined on the four canonical pairs and no other string.
  The reverse map therefore does not depend on the iteration order.
\<close>

theorem symbol_round_trip:
  assumes "enumerates es (pair_mapping v)"
  shows "(\<forall>c \<in> set canonical_pairs.
            \<exists>f. pair_mapping v c = Some f \<and> build_reverse es f = Some c)
         \<and> (\<forall>f c. build_reverse es f = Some c \<longrightarrow>
               c \<in> set canonical_pairs \<and> pair_mapping v c = Some f)
         \<and> dom (pair_mapping v) = set canonical_pairs
         \<and> build_reverse es = reverse_mapping v"
proof -
  have a: "\<forall>c \<in> set canonical_pairs. \<exists>f. pair_mapping v c = Some f \<and> build_reverse es f = Some c"
  proof
    fix c assume "c \<in> set canonical_pairs"
    with pair_mapping_dom [of v] obtain f where "pair_mapping v c = Some f" by auto
    with build_reverse_enumeration [OF assms, of f c]
    show "\<exists>f. pair_mapping v c = Some f \<and> build_reverse es f = Some c" by auto
  qed
  have b: "\<forall>f c. build_reverse es f = Some c \<longrightarrow>
               c \<in> set canonical_pairs \<and> pair_mapping v c = Some f"
    using build_reverse_enumeration [OF assms] pair_mapping_dom [of v] by auto
  from a b pair_mapping_dom [of v] build_reverse_any_order [OF assms]
  show ?thesis by blast
qed

text \<open>The round trip on Kraken, whose symbol for BTC/USDT differs from the pair, with the
  entries visited in the reverse order of the assignments.\<close>

theorem symbol_round_trip_witness:
  "enumerates (rev (pair_assignments Kraken)) (pair_mapping Kraken)
   \<and> pair_mapping Kraken ''BTC/USDT'' = Some ''XBT/USDT''
   \<and> build_reverse (rev (pair_assignments Kraken)) ''XBT/USDT'' = Some ''BTC/USDT''"
proof -
  have e: "enumerates (rev (pair_assignments Kraken)) (pair_mapping Kraken)"
    by (auto simp: enumerates_def pair_mapping_map_of)
  have p: "pair_mapping Kraken ''BTC/USDT'' = Some ''XBT/USDT''"
    by (simp add: pair_mapping_map_of)
  have c: "''BTC/USDT'' \<in> set canonical_pairs"
    by (simp add: canonical_pairs_def)
  from symbol_round_trip [OF e] c p e show ?thesis by fastforce
qed

section \<open>The parsers\<close>

lemma rfind_at_numeral [simp]:
  "rfind_at s pat (numeral k) =
     (if starts_with (drop (numeral k) s) pat then numeral k else rfind_at s pat (pred_numeral k))"
  by (simp add: numeral_eq_Suc)

lemmas string_defs =
  str_find_def str_rfind_def find_first_not_of_def substr_def quoted_def npos_def
  sz_add_def sz_sub_def

lemma bind_Ok_iff: "bind r f = Ok y \<longleftrightarrow> (\<exists>x. r = Ok x \<and> f x = Ok y)"
  by (cases r) (simp_all add: bind_def)

lemma bind_Ok [simp]: "bind (Ok x) f = f x"
  by (simp add: bind_def)

lemma bind_Throw [simp]: "bind (Throw e) f = Throw e"
  by (simp add: bind_def)

subsection \<open>The Kraken tick of the specification\<close>

lemma kraken_frame_b: "get_nested_value kraken_tick_frame ''b'' 0 = Ok ''1901.87''"
  by (simp add: get_nested_value_def kraken_tick_frame_def string_defs)

lemma kraken_frame_a: "get_nested_value kraken_tick_frame ''a'' 0 = Ok ''1902.12''"
  by (simp add: get_nested_value_def kraken_tick_frame_def string_defs)

lemma kraken_frame_pair:
  "substr kraken_tick_frame
     (sz_add (str_rfind kraken_tick_frame [CHR 0x22]
                (sz_sub (str_rfind kraken_tick_frame [CHR 0x22] npos) 1)) 1)
     (sz_sub (sz_sub (str_rfind kraken_tick_frame [CHR 0x22] npos)
                (str_rfind kraken_tick_frame [CHR 0x22]
                   (sz_sub (str_rfind kraken_tick_frame [CHR 0x22] npos) 1))) 1)
   = Ok ''ETH/USDT''"
  by (simp add: kraken_tick_frame_def string_defs)

lemma kraken_frame_body:
  "kraken_parse_body stod t0 kraken_tick_frame =
     bind (stod ''1901.87'') (\<lambda>b. bind (stod ''1902.12'') (\<lambda>a.
       Ok [\<lparr>exchange = ''Kraken'', pair = ''ETH/USDT'', bid = b, ask = a, timestamp = t0\<rparr>]))"
proof -
  have g: "is_array kraken_tick_frame" "str_find kraken_tick_frame (quoted ''ticker'') 0 \<noteq> npos"
    "str_rfind kraken_tick_frame [CHR 0x22]
       (sz_sub (str_rfind kraken_tick_frame [CHR 0x22] npos) 1) \<noteq> npos"
    by (simp_all add: is_array_def kraken_tick_frame_def string_defs)
  have r: "reverse_mapping Kraken ''ETH/USDT'' = Some ''ETH/USDT''"
    by (simp add: reverse_mapping_def build_reverse_def assign_all_def)
  show ?thesis
    unfolding kraken_parse_body_def
    by (simp only: g kraken_frame_pair kraken_frame_a kraken_frame_b r Let_def bind_Ok
        if_True if_False not_True_eq_False option.case venue_name.simps)
qed

text \<open>
  Claim C7. On the frame
  \<open>[340,{"a":["1902.12",1,"1.234"],"b":["1901.87",2,"2.345"],"c":["1902.00","0.01"]},"ticker","ETH/USDT"]\<close>
  the Kraken parser notifies exactly one record: its pair is ETH/USDT, the text between the
  last two quotation marks; its bid is the number \<open>std::stod\<close> reads from \<open>1901.87\<close>,
  the first string of the \<open>b\<close> array, and its ask the number read from \<open>1902.12\<close>,
  the first string of the \<open>a\<close> array.
\<close>

theorem kraken_tick_example:
  assumes "stod ''1901.87'' = Ok b" and "stod ''1902.12'' = Ok a"
  shows "parse_message Kraken stod t0 kraken_tick_frame =
           Ok [\<lparr>exchange = ''Kraken'', pair = ''ETH/USDT'', bid = b, ask = a, timestamp = t0\<rparr>]
         \<and> get_nested_value kraken_tick_frame ''b'' 0 = Ok ''1901.87''
         \<and> get_nested_value kraken_tick_frame ''a'' 0 = Ok ''1902.12''"
  using assms
  by (simp add: parse_message_def catch_std_exception_def kraken_frame_body
      kraken_frame_a kraken_frame_b)

text \<open>The example with the sample of \<open>std::stod\<close>.\<close>

theorem kraken_tick_example_witness:
  "stod_sample ''1901.87'' = Ok (Finite False 8364512718073364 (- 42))
   \<and> stod_sample ''1902.12'' = Ok (Finite False 8365612229701140 (- 42))
   \<and> parse_message Kraken stod_sample 1700000000000000000 kraken_tick_frame =
       Ok [\<lparr>exchange = ''Kraken'', pair = ''ETH/USDT'',
            bid = Finite False 8364512718073364 (- 42),
            ask = Finite False 8365612229701140 (- 42),
            timestamp = 1700000000000000000\<rparr>]"
proof -
  have b: "stod_sample ''1901.87'' = Ok (Finite False 8364512718073364 (- 42))"
    by (simp add: stod_sample_def)
  have a: "stod_sample ''1902.12'' = Ok (Finite False 8365612229701140 (- 42))"
    by (simp add: stod_sample_def)
  from kraken_tick_example [OF b a] a b show ?thesis by simp
qed

subsection \<open>What a parser can emit\<close>

lemma binance_emits:
  "binance_parse_body stod t0 m = Ok us \<Longrightarrow> u \<in> set us \<Longrightarrow>
   exchange u = venue_name Binance \<and> pair u \<in> ran (reverse_mapping Binance)"
  by (auto simp: binance_parse_body_def bind_Ok_iff Let_def split: if_splits option.splits; blast intro: ranI)

lemma kraken_emits:
  "kraken_parse_body stod t0 m = Ok us \<Longrightarrow> u \<in> set us \<Longrightarrow>
   exchange u = venue_name Kraken \<and> pair u \<in> ran (reverse_mapping Kraken)"
  by (auto simp: kraken_parse_body_def bind_Ok_iff Let_def split: if_splits option.splits; blast intro: ranI)

lemma coinbase_emits:
  "coinbase_parse_body stod t0 m = Ok us \<Longrightarrow> u \<in> set us \<Longrightarrow>
   exchange u = venue_name Coinbase \<and> pair u \<in> ran (reverse_mapping Coinbase)"
  by (auto simp: coinbase_parse_body_def bind_Ok_iff Let_def split: if_splits option.splits; blast intro: ranI)

lemma bybit_emits:
  "bybit_parse_body stod t0 m = Ok us \<Longrightarrow> u \<in> set us \<Longrightarrow>
   exchange u = venue_name Bybit \<and> pair u \<in> ran (reverse_mapping Bybit)"
  by (auto simp: bybit_parse_body_def bind_Ok_iff Let_def split: if_splits option.splits; blast intro: ranI)

lemma okx_emits:
  "okx_parse_body stod t0 m = Ok us \<Longrightarrow> u \<in> set us \<Longrightarrow>
   exchange u = venue_name OKX \<and> pair u \<in> ran (reverse_mapping OKX)"
  by (auto simp: okx_parse_body_def bind_Ok_iff Let_def split: if_splits option.splits; blast intro: ranI)

lemma parse_body_emits:
  "parse_body v stod t0 m = Ok us \<Longrightarrow> u \<in> set us \<Longrightarrow>
   exchange u = venue_name v \<and> pair u \<in> ran (reverse_mapping v)"
  using binance_emits kraken_emits coinbase_emits bybit_emits okx_emits
  by (cases v) simp_all

lemma parse_message_cases:
  "parse_message v stod t0 m = Ok us \<Longrightarrow> us = [] \<or> parse_body v stod t0 m = Ok us"
  by (auto simp: parse_message_def catch_std_exception_def split: result.splits)

text \<open>
  Claim C8. Whatever the frame and whatever \<open>std::stod\<close> does, every record a venue's
  parser notifies carries the venue's name as its exchange and one of the four canonical
  pairs as its pair.
\<close>

theorem emitted_updates_canonical:
  assumes "parse_message v stod t0 frame = Ok us" and "u \<in> set us"
  shows "exchange u = venue_name v \<and> pair u \<in> set canonical_pairs"
proof -
  from parse_message_cases [OF assms(1)] assms(2)
  have "parse_body v stod t0 frame = Ok us" by auto
  from parse_body_emits [OF this assms(2)] reverse_mapping_canonical
  show ?thesis by (auto simp: ran_def)
qed

text \<open>The record of the Kraken example.\<close>

theorem emitted_updates_canonical_witness:
  "parse_message Kraken stod_sample 1700000000000000000 kraken_tick_frame =
     Ok [\<lparr>exchange = ''Kraken'', pair = ''ETH/USDT'',
          bid = Finite False 8364512718073364 (- 42),
          ask = Finite False 8365612229701140 (- 42),
          timestamp = 1700000000000000000\<rparr>]
   \<and> ''Kraken'' = venue_name Kraken
   \<and> ''ETH/USDT'' \<in> set canonical_pairs"
proof -
  let ?u = "\<lparr>exchange = ''Kraken'', pair = ''ETH/USDT'',
          bid = Finite False 8364512718073364 (- 42),
          ask = Finite False 8365612229701140 (- 42),
          timestamp = 1700000000000000000\<rparr>"
  have p: "parse_message Kraken stod_sample 1700000000000000000 kraken_tick_frame = Ok [?u]"
    by (simp add: parse_message_def catch_std_exception_def kraken_frame_body stod_sample_def)
  have "?u \<in> set [?u]" by simp
  from emitted_updates_canonical [OF p this] p show ?thesis by simp
qed

subsection \<open>Frames that are not ticks\<close>

lemma starts_with_prefix: "starts_with s pat \<longleftrightarrow> prefix pat s"
  by (induction s pat rule: starts_with.induct) auto

lemma find_at_absent: "\<not> sublist pat s \<Longrightarrow> find_at s pat i = npos"
proof (induction s arbitrary: i)
  case Nil
  then show ?case by auto
next
  case (Cons c cs)
  from Cons.prems have "\<not> prefix pat (c # cs)" by auto
  moreover from Cons.prems have "\<not> sublist pat cs" by (auto simp: sublist_Cons_right)
  ultimately show ?case using Cons.IH by (simp add: starts_with_prefix)
qed

lemma str_find_absent: "\<not> sublist pat s \<Longrightarrow> str_find s pat 0 = npos"
  by (simp add: str_find_def find_at_absent)

lemma has_key_absent: "\<not> sublist (quoted k) m \<Longrightarrow> \<not> has_key m k"
  by (simp add: has_key_def str_find_absent)

lemma get_json_string_absent: "\<not> sublist (quoted k) m \<Longrightarrow> get_json_string m k = Ok []"
  by (simp add: get_json_string_def str_find_absent)

lemma get_nested_value_absent: "\<not> sublist (quoted k) m \<Longrightarrow> get_nested_value m k i = Ok []"
  by (simp add: get_nested_value_def str_find_absent)

lemma parse_message_Ok: "\<exists>us. parse_message v stod t0 m = Ok us"
  by (simp add: parse_message_def catch_std_exception_def split: result.splits)

lemma catch_bind:
  "(\<And>x. r = Ok x \<Longrightarrow> catch_std_exception (f x) = Ok []) \<Longrightarrow>
   catch_std_exception (bind r f) = Ok []"
  by (cases r) (simp_all add: bind_def catch_std_exception_def)

lemma catch_Ok_Nil [simp]: "catch_std_exception (Ok []) = Ok []"
  by (simp add: catch_std_exception_def)

lemma catch_Throw [simp]: "catch_std_exception (Throw e) = Ok []"
  by (simp add: catch_std_exception_def)

lemma catch_if:
  "(c \<Longrightarrow> catch_std_exception a = Ok []) \<Longrightarrow> (\<not> c \<Longrightarrow> catch_std_exception b = Ok []) \<Longrightarrow>
   catch_std_exception (if c then a else b) = Ok []"
  by simp

lemma catch_option:
  "(x = None \<Longrightarrow> catch_std_exception a = Ok []) \<Longrightarrow>
   (\<And>y. x = Some y \<Longrightarrow> catch_std_exception (b y) = Ok []) \<Longrightarrow>
   catch_std_exception (case x of None \<Rightarrow> a | Some y \<Rightarrow> b y) = Ok []"
  by (cases x) simp_all

lemmas catch_rules = catch_bind catch_if catch_option

lemma binance_absent:
  assumes "k \<in> set (required_keys Binance)" "\<not> sublist (quoted k) m"
  shows "catch_std_exception (binance_parse_body stod t0 m) = Ok []"
  using assms has_key_absent [of k m] by (auto simp: binance_parse_body_def)

lemma coinbase_absent:
  assumes "k \<in> set (required_keys Coinbase)" "\<not> sublist (quoted k) m"
  shows "catch_std_exception (coinbase_parse_body stod t0 m) = Ok []"
proof (cases "k = ''type''")
  case True
  with assms(2) have "get_json_string m ''type'' = Ok []" by (simp add: get_json_string_absent)
  then show ?thesis by (simp add: coinbase_parse_body_def)
next
  case False
  with assms has_key_absent [of k m]
  have "\<not> has_key m ''product_id'' \<or> \<not> has_key m ''best_bid'' \<or> \<not> has_key m ''best_ask''"
    by auto
  then show ?thesis
    unfolding coinbase_parse_body_def by (intro catch_bind) simp
qed

lemma okx_absent:
  assumes "k \<in> set (required_keys OKX)" "\<not> sublist (quoted k) m"
  shows "catch_std_exception (okx_parse_body stod t0 m) = Ok []"
proof -
  from assms has_key_absent [of k m] get_json_string_absent [of k m]
  have "\<not> has_key m ''data'' \<or> get_json_string m ''instId'' = Ok []
        \<or> get_json_string m ''bidPx'' = Ok [] \<or> get_json_string m ''askPx'' = Ok []"
    by auto
  then show ?thesis
    unfolding okx_parse_body_def
    by (intro catch_rules) (auto simp: bind_def)
qed

lemma bybit_absent:
  assumes "k \<in> set (required_keys Bybit)" "\<not> sublist (quoted k) m"
  shows "catch_std_exception (bybit_parse_body stod t0 m) = Ok []"
proof -
  from assms has_key_absent [of k m] get_json_string_absent [of k m]
  have "\<not> has_key m ''topic'' \<or> \<not> has_key m ''data'' \<or> get_json_string m ''symbol'' = Ok []
        \<or> get_json_string m ''bid1Price'' = Ok [] \<or> get_json_string m ''ask1Price'' = Ok []"
    by auto
  then show ?thesis
    unfolding bybit_parse_body_def
    by (intro catch_rules) (auto simp: bind_def)
qed

lemma kraken_absent:
  assumes "k \<in> set (required_keys Kraken)" "\<not> sublist (quoted k) m" "stod [] = Throw e"
  shows "catch_std_exception (kraken_parse_body stod t0 m) = Ok []"
proof -
  from assms str_find_absent [of "quoted k" m] get_nested_value_absent [of k m 0]
  have "str_find m (quoted ''ticker'') 0 = npos \<or> get_nested_value m ''b'' 0 = Ok []
        \<or> get_nested_value m ''a'' 0 = Ok []"
    by auto
  then show ?thesis
    unfolding kraken_parse_body_def Let_def
    by (intro catch_rules) (auto simp: bind_def assms(3) split: result.splits)
qed

subsection \<open>Indices\<close>

lemma sz_add_small: "a + b < 18446744073709551616 \<Longrightarrow> sz_add a b = a + b"
  by (simp add: sz_add_def)

lemma sz_sub_small: "b \<le> a \<Longrightarrow> a < 18446744073709551616 \<Longrightarrow> sz_sub a b = a - b"
proof -
  assume a: "b \<le> a" "a < 18446744073709551616"
  then have "b mod 18446744073709551616 = b" by simp
  moreover from a have "a + 18446744073709551616 - b = (a - b) + 1 * 18446744073709551616"
    by simp
  moreover from a have "a - b < 18446744073709551616" by simp
  ultimately show ?thesis
    unfolding sz_sub_def by (simp only: mod_mult_self1 mod_less)
qed

lemma find_at_char: "x \<notin> set a \<Longrightarrow> find_at (a @ x # c) [x] i = i + length a"
  by (induction a arbitrary: i) auto

lemma find_at_char_absent: "x \<notin> set s \<Longrightarrow> find_at s [x] i = npos"
  by (induction s arbitrary: i) auto

lemma str_find_suffix:
  "str_find (pre @ t) pat (length pre) = find_at t pat (length pre)"
  by (simp add: str_find_def)

lemma str_find_at: "q = length pre \<Longrightarrow> str_find (pre @ t) pat q = find_at t pat q"
  by (simp add: str_find_def)

lemma str_find_npos: "length s < npos \<Longrightarrow> str_find s pat npos = npos"
  by (simp add: str_find_def)

lemma after_first_Some:
  "after_first pat s = Some r \<Longrightarrow> \<exists>p. s = p @ pat @ r \<and> find_at s pat i = i + length p"
proof (induction s arbitrary: i)
  case Nil
  then show ?case by (simp split: if_splits)
next
  case (Cons c cs)
  show ?case
  proof (cases "prefix pat (c # cs)")
    case True
    with Cons.prems have r: "r = drop (length pat) (c # cs)" by simp
    from True obtain z where "c # cs = pat @ z" by (auto simp: prefix_def)
    with r have "c # cs = [] @ pat @ r" by simp
    moreover from True have "find_at (c # cs) pat i = i + length ([] :: string)"
      by (simp add: starts_with_prefix)
    ultimately show ?thesis by blast
  next
    case False
    with Cons.prems have "after_first pat cs = Some r" by simp
    from Cons.IH [OF this, of "i + 1"]
    obtain p where p: "cs = p @ pat @ r" "find_at cs pat (i + 1) = i + 1 + length p" by blast
    then have "c # cs = (c # p) @ pat @ r" by simp
    moreover from False p have "find_at (c # cs) pat i = i + length (c # p)"
      by (simp add: starts_with_prefix)
    ultimately show ?thesis by blast
  qed
qed

lemma after_first_None_iff: "after_first pat s = None \<longleftrightarrow> \<not> sublist pat s"
proof (induction s)
  case Nil
  then show ?case by simp
next
  case (Cons c cs)
  then show ?case by (simp add: sublist_Cons_right)
qed

lemma str_find_sublist:
  assumes "length s < npos"
  shows "str_find s pat 0 \<noteq> npos \<longleftrightarrow> sublist pat s"
proof (cases "after_first pat s")
  case None
  then have "\<not> sublist pat s" by (simp add: after_first_None_iff)
  then show ?thesis by (simp add: str_find_absent)
next
  case (Some r)
  from after_first_Some [OF this, of 0]
  obtain p where p: "s = p @ pat @ r" "find_at s pat 0 = length p" by auto
  then have "length p \<le> length s" by simp
  with assms p(2) have "str_find s pat 0 \<noteq> npos" by (simp add: str_find_def)
  moreover from Some have "sublist pat s" using after_first_None_iff [of pat s] by simp
  ultimately show ?thesis by simp
qed

lemma has_key_sublist: "length s < npos \<Longrightarrow> has_key s k \<longleftrightarrow> sublist (quoted k) s"
  by (simp add: has_key_def str_find_sublist)

lemma find_at_ge: "find_at s pat i = npos \<or> i \<le> find_at s pat i"
proof (induction s arbitrary: i)
  case Nil
  then show ?case by simp
next
  case (Cons c cs)
  from Cons.IH [of "i + 1"] show ?case by auto
qed

lemma str_find_zero: "pat \<noteq> [] \<Longrightarrow> str_find s pat 0 = 0 \<longleftrightarrow> prefix pat s"
proof (cases s)
  case Nil
  assume "pat \<noteq> []"
  with Nil show ?thesis by (simp add: str_find_def npos_def)
next
  case (Cons c cs)
  assume "pat \<noteq> []"
  from find_at_ge [of cs pat 1] have "find_at cs pat 1 \<noteq> 0" by (auto simp: npos_def)
  with Cons show ?thesis by (simp add: str_find_def starts_with_prefix)
qed

subsection \<open>Quoted texts\<close>

lemma dropWhile_neq: "x \<notin> set a \<Longrightarrow> dropWhile (\<lambda>c. c \<noteq> x) (a @ x # b) = x # b"
  by (induction a) auto

lemma takeWhile_neq: "x \<notin> set a \<Longrightarrow> takeWhile (\<lambda>c. c \<noteq> x) (a @ x # b) = a"
  by (induction a) auto

lemma dropWhile_neq_absent: "x \<notin> set a \<Longrightarrow> dropWhile (\<lambda>c. c \<noteq> x) a = []"
  by (induction a) auto

lemma quoted_scan:
  assumes "length (pre @ t) < npos"
  shows "(let pos = str_find (pre @ t) [CHR 0x22] (length pre);
              end_pos = str_find (pre @ t) [CHR 0x22] (sz_add pos 1)
          in if pos = npos \<or> end_pos = npos then Ok []
             else substr (pre @ t) (sz_add pos 1) (sz_sub (sz_sub end_pos pos) 1))
         = Ok (first_quoted t)"
proof (cases "CHR 0x22 \<in> set t")
  case False
  have "str_find (pre @ t) [CHR 0x22] (length pre) = find_at t [CHR 0x22] (length pre)"
    by (rule str_find_at) simp
  then have p: "str_find (pre @ t) [CHR 0x22] (length pre) = npos"
    by (simp only: find_at_char_absent [OF False])
  from False have d: "dropWhile (\<lambda>c. c \<noteq> CHR 0x22) t = []" by (rule dropWhile_neq_absent)
  have fq: "first_quoted t = []" by (simp add: first_quoted_def d)
  show ?thesis unfolding Let_def p fq by simp
next
  case True
  from split_list_first [OF this]
  obtain a b where t: "t = a @ CHR 0x22 # b" "CHR 0x22 \<notin> set a" by blast
  define pos where "pos = length pre + length a"
  have "str_find (pre @ t) [CHR 0x22] (length pre) = find_at t [CHR 0x22] (length pre)"
    by (rule str_find_at) simp
  then have pos: "str_find (pre @ t) [CHR 0x22] (length pre) = pos"
    unfolding pos_def t(1) by (simp only: find_at_char [OF t(2)])
  from assms t have b1: "pos + 1 + length b < npos" by (simp add: pos_def)
  then have n: "pos \<noteq> npos" and s1: "sz_add pos 1 = pos + 1"
    by (simp_all add: sz_add_small npos_def)
  have d: "dropWhile (\<lambda>c. c \<noteq> CHR 0x22) t = CHR 0x22 # b"
    unfolding t(1) using t(2) by (rule dropWhile_neq)
  have f: "pre @ t = (pre @ a @ [CHR 0x22]) @ b"
    by (simp add: t)
  have e0: "str_find (pre @ t) [CHR 0x22] (pos + 1) = find_at b [CHR 0x22] (pos + 1)"
    unfolding f by (rule str_find_at) (simp add: pos_def)
  show ?thesis
  proof (cases "CHR 0x22 \<in> set b")
    case False
    from e0 have e: "str_find (pre @ t) [CHR 0x22] (pos + 1) = npos"
      by (simp only: find_at_char_absent [OF False])
    from False have fq: "first_quoted t = []" by (simp add: first_quoted_def d)
    show ?thesis unfolding Let_def pos s1 e fq by simp
  next
    case True
    from split_list_first [OF this]
    obtain c e where b: "b = c @ CHR 0x22 # e" "CHR 0x22 \<notin> set c" by blast
    from e0 have e: "str_find (pre @ t) [CHR 0x22] (pos + 1) = pos + 1 + length c"
      unfolding b(1) by (simp only: find_at_char [OF b(2)])
    from b1 b have e1: "pos + 1 + length c < npos" by simp
    then have e2: "pos + 1 + length c \<noteq> npos" by simp
    from e1 have "sz_sub (pos + 1 + length c) pos = 1 + length c"
      by (simp add: sz_sub_small npos_def)
    moreover from e1 have "sz_sub (1 + length c) 1 = length c"
      by (simp add: sz_sub_small npos_def)
    ultimately have l: "sz_sub (sz_sub (pos + 1 + length c) pos) 1 = length c" by simp
    have sub: "substr (pre @ t) (pos + 1) (length c) = Ok c"
      by (simp add: substr_def t b(1) pos_def)
    have "takeWhile (\<lambda>c. c \<noteq> CHR 0x22) b = c"
      unfolding b(1) using b(2) by (rule takeWhile_neq)
    with True have fq: "first_quoted t = c" by (simp add: first_quoted_def d)
    show ?thesis unfolding Let_def pos s1 e l sub fq using n e2 by simp
  qed
qed

lemma text_after_scan:
  assumes len: "length f < npos" and sep: "sep \<notin> set (quoted k)"
  shows "(let pos = str_find f (quoted k) 0 in
      if pos = npos then Ok []
      else
        let pos = str_find f [sep] pos in
        if pos = npos then Ok []
        else
          let pos = str_find f [CHR 0x22] pos;
              end_pos = str_find f [CHR 0x22] (sz_add pos 1)
          in if pos = npos \<or> end_pos = npos then Ok []
             else substr f (sz_add pos 1) (sz_sub (sz_sub end_pos pos) 1))
     = Ok (text_after sep f k)"
proof (cases "after_first (quoted k) f")
  case None
  then have "\<not> sublist (quoted k) f" by (simp add: after_first_None_iff)
  then have p: "str_find f (quoted k) 0 = npos" by (rule str_find_absent)
  from None have t: "text_after sep f k = []" by (simp add: text_after_def)
  show ?thesis unfolding Let_def p t by simp
next
  case (Some r)
  from after_first_Some [OF this, of 0]
  obtain p where p: "f = p @ quoted k @ r" "find_at f (quoted k) 0 = length p" by auto
  from p(2) have p0: "str_find f (quoted k) 0 = length p" by (simp add: str_find_def)
  from p(1) len have n0: "length p \<noteq> npos" by simp
  have c0: "str_find (p @ quoted k @ r) [sep] (length p) = find_at (quoted k @ r) [sep] (length p)"
    by (rule str_find_at) simp
  show ?thesis
  proof (cases "sep \<in> set r")
    case False
    with sep have "sep \<notin> set (quoted k @ r)" by simp
    from c0 have c: "str_find f [sep] (length p) = npos"
      unfolding p(1) [symmetric] by (simp only: find_at_char_absent [OF \<open>sep \<notin> set (quoted k @ r)\<close>])
    from False have dw: "dropWhile (\<lambda>c. c \<noteq> sep) r = []" by (rule dropWhile_neq_absent)
    have t: "text_after sep f k = []"
      by (simp add: text_after_def first_quoted_def Some dw)
    show ?thesis unfolding Let_def p0 c t using n0 by simp
  next
    case True
    from split_list_first [OF this]
    obtain a b where r: "r = a @ sep # b" "sep \<notin> set a" by blast
    from sep r(2) have na: "sep \<notin> set (quoted k @ a)" by simp
    have "find_at ((quoted k @ a) @ sep # b) [sep] (length p) = length p + length (quoted k @ a)"
      by (rule find_at_char [OF na])
    with c0 have c: "str_find f [sep] (length p) = length (p @ quoted k @ a)"
      unfolding p(1) r(1) by simp
    have f: "f = (p @ quoted k @ a) @ (sep # b)" by (simp add: p(1) r(1))
    from len f have nc: "length (p @ quoted k @ a) \<noteq> npos" by simp
    from len have "length ((p @ quoted k @ a) @ (sep # b)) < npos" unfolding f [symmetric] .
    from quoted_scan [OF this]
    have q: "(let pos = str_find f [CHR 0x22] (length (p @ quoted k @ a));
              end_pos = str_find f [CHR 0x22] (sz_add pos 1)
          in if pos = npos \<or> end_pos = npos then Ok []
             else substr f (sz_add pos 1) (sz_sub (sz_sub end_pos pos) 1))
         = Ok (first_quoted (sep # b))"
      unfolding f [symmetric] .
    have dw: "dropWhile (\<lambda>c. c \<noteq> sep) r = sep # b"
      unfolding r(1) using r(2) by (rule dropWhile_neq)
    have t: "text_after sep f k = first_quoted (sep # b)"
      by (simp add: text_after_def Some dw)
    have "(let pos = str_find f (quoted k) 0 in
      if pos = npos then Ok []
      else
        let pos = str_find f [sep] pos in
        if pos = npos then Ok []
        else
          let pos = str_find f [CHR 0x22] pos;
              end_pos = str_find f [CHR 0x22] (sz_add pos 1)
          in if pos = npos \<or> end_pos = npos then Ok []
             else substr f (sz_add pos 1) (sz_sub (sz_sub end_pos pos) 1))
      = (let pos = str_find f [CHR 0x22] (length (p @ quoted k @ a));
              end_pos = str_find f [CHR 0x22] (sz_add pos 1)
          in if pos = npos \<or> end_pos = npos then Ok []
             else substr f (sz_add pos 1) (sz_sub (sz_sub end_pos pos) 1))"
      using n0 nc by (simp only: Let_def p0 c if_False)
    with q t show ?thesis by (simp only:)
  qed
qed

lemma quote_not_colon: "CHR '':'' \<notin> set k \<Longrightarrow> CHR '':'' \<notin> set (quoted k)"
  by (simp add: quoted_def)

lemma quote_not_bracket: "CHR ''['' \<notin> set k \<Longrightarrow> CHR ''['' \<notin> set (quoted k)"
  by (simp add: quoted_def)

lemma get_json_string_text:
  assumes "length f < npos" "CHR '':'' \<notin> set k"
  shows "get_json_string f k = Ok (member_text f k)"
proof -
  have "get_json_string f k =
    (let pos = str_find f (quoted k) 0 in
      if pos = npos then Ok []
      else
        let pos = str_find f [CHR '':''] pos in
        if pos = npos then Ok []
        else
          let pos = str_find f [CHR 0x22] pos;
              end_pos = str_find f [CHR 0x22] (sz_add pos 1)
          in if pos = npos \<or> end_pos = npos then Ok []
             else substr f (sz_add pos 1) (sz_sub (sz_sub end_pos pos) 1))"
    using assms(1) by (simp add: get_json_string_def Let_def str_find_npos)
  with text_after_scan [OF assms(1) quote_not_colon [OF assms(2)]]
  show ?thesis by (simp only: member_text_def)
qed

lemma get_nested_value_text:
  assumes "length f < npos" "CHR ''['' \<notin> set k"
  shows "get_nested_value f k 0 = Ok (array_text f k)"
proof -
  have "get_nested_value f k 0 =
    (let pos = str_find f (quoted k) 0 in
      if pos = npos then Ok []
      else
        let pos = str_find f [CHR ''[''] pos in
        if pos = npos then Ok []
        else
          let pos = str_find f [CHR 0x22] pos;
              end_pos = str_find f [CHR 0x22] (sz_add pos 1)
          in if pos = npos \<or> end_pos = npos then Ok []
             else substr f (sz_add pos 1) (sz_sub (sz_sub end_pos pos) 1))"
    by (simp add: get_nested_value_def Let_def)
  with text_after_scan [OF assms(1) quote_not_bracket [OF assms(2)]]
  show ?thesis by (simp only: array_text_def)
qed

subsection \<open>The opening bracket\<close>

lemma find_first_not_of_at_dropWhile:
  "find_first_not_of_at s chars i =
     (case dropWhile (\<lambda>c. c \<in> set chars) s of
        [] \<Rightarrow> npos
      | c # r \<Rightarrow> i + length (takeWhile (\<lambda>c. c \<in> set chars) s))"
proof (induction s arbitrary: i)
  case Nil
  show ?case by simp
next
  case (Cons a s)
  show ?case
  proof (cases "a \<in> set chars")
    case False
    then show ?thesis by simp
  next
    case True
    note IH = Cons.IH [of "i + 1"]
    show ?thesis
    proof (cases "dropWhile (\<lambda>c. c \<in> set chars) s")
      case Nil
      from True IH show ?thesis by (simp add: Nil)
    next
      case (Cons c r)
      from True IH show ?thesis by (simp add: Cons)
    qed
  qed
qed

lemma nth_length_takeWhile_hd:
  "dropWhile P s = c # r \<Longrightarrow> s ! length (takeWhile P s) = c"
  by (induction s) (simp_all split: if_splits)

lemma is_array_opens:
  assumes len: "length f < npos"
  shows "is_array f = opens_array f"
proof -
  define P where "P = (\<lambda>c. c \<in> set [CHR '' '', CHR 0x09, CHR 0x0A, CHR 0x0D])"
  have a: "is_array f =
      (let first = (case dropWhile P f of [] \<Rightarrow> npos | c # r \<Rightarrow> 0 + length (takeWhile P f))
       in first \<noteq> npos \<and> f ! first = CHR ''['')"
    unfolding is_array_def find_first_not_of_def find_first_not_of_at_dropWhile P_def ..
  have o: "opens_array f = (case dropWhile P f of [] \<Rightarrow> False | c # r \<Rightarrow> c = CHR ''['')"
    unfolding opens_array_def P_def ..
  show ?thesis
  proof (cases "dropWhile P f")
    case Nil
    show ?thesis unfolding a o Nil by simp
  next
    case (Cons c r)
    have "length (takeWhile P f) \<le> length f" by (rule length_takeWhile_le)
    with len have n: "length (takeWhile P f) \<noteq> npos" by simp
    from nth_length_takeWhile_hd [OF Cons] n show ?thesis unfolding a o Cons by simp
  qed
qed

subsection \<open>The last quoted text\<close>

lemma rfind_at_char:
  "x \<notin> set b \<Longrightarrow> rfind_at (a @ x # b @ rest) [x] (length a + length b) = length a"
proof (induction b arbitrary: rest rule: rev_induct)
  case Nil
  show ?case
  proof (cases a)
    case Nil
    then show ?thesis by simp
  next
    case (Cons a1 a2)
    then show ?thesis by simp
  qed
next
  case (snoc y b)
  from snoc.prems have y: "y \<noteq> x" and b: "x \<notin> set b" by auto
  have d: "drop (Suc (length a + length b)) (a @ x # (b @ [y]) @ rest) = y # rest"
    by simp
  have "rfind_at (a @ x # (b @ [y]) @ rest) [x] (Suc (length a + length b))
      = rfind_at (a @ x # (b @ [y]) @ rest) [x] (length a + length b)"
    unfolding rfind_at.simps d using y by simp
  also have "\<dots> = rfind_at (a @ x # b @ (y # rest)) [x] (length a + length b)" by simp
  also have "\<dots> = length a" by (rule snoc.IH [OF b])
  finally show ?case by simp
qed

lemma two_quotes:
  assumes "sublist (quoted k) f"
  shows "\<exists>a b c. f = a @ CHR 0x22 # b @ CHR 0x22 # c \<and> CHR 0x22 \<notin> set b \<and> CHR 0x22 \<notin> set c"
proof -
  from assms obtain p s where f: "f = p @ CHR 0x22 # k @ CHR 0x22 # s"
    by (auto simp: sublist_def quoted_def)
  then have "CHR 0x22 \<in> set f" by simp
  from split_list_last [OF this]
  obtain a c where a: "f = a @ CHR 0x22 # c" "CHR 0x22 \<notin> set c" by blast
  have "CHR 0x22 \<in> set a"
  proof (rule ccontr)
    assume n: "CHR 0x22 \<notin> set a"
    then have "filter (\<lambda>x. x = CHR 0x22) a = []" by (auto simp: filter_empty_conv)
    moreover from a(2) have "filter (\<lambda>x. x = CHR 0x22) c = []"
      by (auto simp: filter_empty_conv)
    ultimately have "length (filter (\<lambda>x. x = CHR 0x22) f) = 1" unfolding a(1) by simp
    moreover have "2 \<le> length (filter (\<lambda>x. x = CHR 0x22) f)" unfolding f by simp
    ultimately show False by simp
  qed
  from split_list_last [OF this]
  obtain a' b where b: "a = a' @ CHR 0x22 # b" "CHR 0x22 \<notin> set b" by blast
  with a have "f = a' @ CHR 0x22 # b @ CHR 0x22 # c" by simp
  with a(2) b(2) show ?thesis by blast
qed

lemma last_quoted_scan:
  assumes len: "length f < npos" and k: "sublist (quoted k) f"
  shows "\<exists>sym. last_quoted f = Some sym \<and>
     (let last_quote = str_rfind f [CHR 0x22] npos;
          second_last = str_rfind f [CHR 0x22] (sz_sub last_quote 1)
      in second_last \<noteq> npos \<and>
         substr f (sz_add second_last 1) (sz_sub (sz_sub last_quote second_last) 1) = Ok sym)"
proof -
  from two_quotes [OF k]
  obtain a b c where f: "f = a @ CHR 0x22 # b @ CHR 0x22 # c"
    and b: "CHR 0x22 \<notin> set b" and c: "CHR 0x22 \<notin> set c" by blast
  define lq where "lq = length a + 1 + length b"
  from len f have bound: "lq + 1 + length c < npos" by (simp add: lq_def)
  have "rfind_at ((a @ CHR 0x22 # b) @ CHR 0x22 # c @ []) [CHR 0x22]
          (length (a @ CHR 0x22 # b) + length c) = length (a @ CHR 0x22 # b)"
    by (rule rfind_at_char [OF c])
  then have r1: "rfind_at f [CHR 0x22] (lq + length c) = lq"
    by (simp add: f lq_def)
  from bound have m1: "min (length f - length [CHR 0x22]) npos = lq + length c"
    by (simp add: f lq_def)
  have l1: "\<not> length [CHR 0x22] > length f" by (simp add: f)
  have last: "str_rfind f [CHR 0x22] npos = lq"
    unfolding str_rfind_def m1 r1 using l1 by simp
  from bound have s0: "sz_sub lq 1 = length a + length b"
    by (simp add: sz_sub_small npos_def lq_def)
  have "rfind_at (a @ CHR 0x22 # b @ (CHR 0x22 # c)) [CHR 0x22] (length a + length b) = length a"
    by (rule rfind_at_char [OF b])
  then have r2: "rfind_at f [CHR 0x22] (length a + length b) = length a"
    by (simp add: f)
  have m2: "min (length f - length [CHR 0x22]) (length a + length b) = length a + length b"
    by (simp add: f)
  have second: "str_rfind f [CHR 0x22] (length a + length b) = length a"
    unfolding str_rfind_def m2 r2 using l1 by simp
  from bound have n2: "length a \<noteq> npos" by (simp add: lq_def)
  from bound have s1: "sz_add (length a) 1 = length a + 1"
    by (simp add: sz_add_small npos_def lq_def)
  from bound have "sz_sub lq (length a) = 1 + length b"
    by (simp add: sz_sub_small npos_def lq_def)
  moreover from bound have "sz_sub (1 + length b) 1 = length b"
    by (simp add: sz_sub_small npos_def lq_def)
  ultimately have s2: "sz_sub (sz_sub lq (length a)) 1 = length b" by simp
  have sub: "substr f (length a + 1) (length b) = Ok b"
    by (simp add: substr_def f)
  have rf: "rev f = rev c @ CHR 0x22 # (rev b @ CHR 0x22 # rev a)" by (simp add: f)
  from c have "CHR 0x22 \<notin> set (rev c)" by simp
  then have d: "dropWhile (\<lambda>x. x \<noteq> CHR 0x22) (rev f) = CHR 0x22 # (rev b @ CHR 0x22 # rev a)"
    unfolding rf by (rule dropWhile_neq)
  from b have "CHR 0x22 \<notin> set (rev b)" by simp
  then have t: "takeWhile (\<lambda>x. x \<noteq> CHR 0x22) (rev b @ CHR 0x22 # rev a) = rev b"
    by (rule takeWhile_neq)
  have lqd: "last_quoted f = Some b"
    unfolding last_quoted_def d by (simp add: t)
  have "(let last_quote = str_rfind f [CHR 0x22] npos;
          second_last = str_rfind f [CHR 0x22] (sz_sub last_quote 1)
      in second_last \<noteq> npos \<and>
         substr f (sz_add second_last 1) (sz_sub (sz_sub last_quote second_last) 1) = Ok b)"
    unfolding Let_def last s0 second s1 s2 sub using n2 by simp
  with lqd show ?thesis by blast
qed

subsection \<open>Each parser reads the textual shape\<close>

lemma catch_tick:
  assumes "stod [] = Throw e"
  shows "catch_std_exception
           (if \<not> tick_frame v f then Ok []
            else case reverse_mapping v (symbol_text v f) of
                   None \<Rightarrow> Ok []
                 | Some p \<Rightarrow>
                     bind (stod (bid_text v f)) (\<lambda>b. bind (stod (ask_text v f)) (\<lambda>a.
                     Ok [\<lparr>exchange = venue_name v, pair = p, bid = b, ask = a,
                          timestamp = t0\<rparr>])))
         = Ok (if tick_text v f then tick_records v stod t0 f else [])"
proof (cases "tick_frame v f \<and> reverse_mapping v (symbol_text v f) \<noteq> None")
  case False
  then show ?thesis
    by (cases "reverse_mapping v (symbol_text v f)") (auto simp: tick_text_def)
next
  case True
  then obtain p where p: "reverse_mapping v (symbol_text v f) = Some p" and g: "tick_frame v f"
    by auto
  show ?thesis
  proof (cases "stod (bid_text v f)")
    case (Throw x)
    with p g show ?thesis by (simp add: tick_text_def tick_records_def)
  next
    case (Ok b)
    with assms have bt: "bid_text v f \<noteq> []" by auto
    show ?thesis
    proof (cases "stod (ask_text v f)")
      case (Throw x)
      with p g Ok show ?thesis by (simp add: tick_text_def tick_records_def)
    next
      case Ok2: (Ok a)
      with assms have "ask_text v f \<noteq> []" by auto
      with p g Ok Ok2 bt show ?thesis
        by (simp add: catch_std_exception_def tick_text_def tick_records_def)
    qed
  qed
qed

lemma catch_tick_checked:
  "catch_std_exception
     (if \<not> tick_frame v f then Ok []
      else case reverse_mapping v (symbol_text v f) of
             None \<Rightarrow> Ok []
           | Some p \<Rightarrow>
               if bid_text v f = [] \<or> ask_text v f = [] then Ok []
               else
                 bind (stod (bid_text v f)) (\<lambda>b. bind (stod (ask_text v f)) (\<lambda>a.
                 Ok [\<lparr>exchange = venue_name v, pair = p, bid = b, ask = a,
                      timestamp = t0\<rparr>])))
   = Ok (if tick_text v f then tick_records v stod t0 f else [])"
proof (cases "tick_text v f")
  case False
  then show ?thesis
    by (cases "reverse_mapping v (symbol_text v f)") (auto simp: tick_text_def)
next
  case True
  then obtain p where p: "reverse_mapping v (symbol_text v f) = Some p"
    and g: "tick_frame v f" "bid_text v f \<noteq> []" "ask_text v f \<noteq> []"
    by (auto simp: tick_text_def)
  with True show ?thesis
    by (cases "stod (bid_text v f)"; cases "stod (ask_text v f)")
      (simp_all add: catch_std_exception_def tick_records_def)
qed

lemma reverse_mapping_empty: "reverse_mapping v [] = None"
  by (cases v) (simp_all add: reverse_mapping_def build_reverse_def assign_all_def)

lemma binance_exact:
  assumes len: "length f < npos" and e: "stod [] = Throw e"
  shows "catch_std_exception (binance_parse_body stod t0 f) =
           Ok (if tick_text Binance f then tick_records Binance stod t0 f else [])"
proof -
  have "binance_parse_body stod t0 f =
      (if \<not> tick_frame Binance f then Ok []
       else case reverse_mapping Binance (symbol_text Binance f) of
              None \<Rightarrow> Ok []
            | Some p \<Rightarrow>
                bind (stod (bid_text Binance f)) (\<lambda>b. bind (stod (ask_text Binance f)) (\<lambda>a.
                Ok [\<lparr>exchange = venue_name Binance, pair = p, bid = b, ask = a,
                     timestamp = t0\<rparr>])))"
    by (simp add: binance_parse_body_def has_key_sublist [OF len]
        get_json_string_text [OF len] Let_def split: option.splits)
  then show ?thesis
    by (simp only: catch_tick [where stod = stod and e = e, OF e])
qed

lemma coinbase_exact:
  assumes len: "length f < npos" and e: "stod [] = Throw e"
  shows "catch_std_exception (coinbase_parse_body stod t0 f) =
           Ok (if tick_text Coinbase f then tick_records Coinbase stod t0 f else [])"
proof -
  have "coinbase_parse_body stod t0 f =
      (if \<not> tick_frame Coinbase f then Ok []
       else case reverse_mapping Coinbase (symbol_text Coinbase f) of
              None \<Rightarrow> Ok []
            | Some p \<Rightarrow>
                bind (stod (bid_text Coinbase f)) (\<lambda>b. bind (stod (ask_text Coinbase f)) (\<lambda>a.
                Ok [\<lparr>exchange = venue_name Coinbase, pair = p, bid = b, ask = a,
                     timestamp = t0\<rparr>])))"
    by (simp add: coinbase_parse_body_def has_key_sublist [OF len]
        get_json_string_text [OF len] Let_def split: option.splits)
  then show ?thesis
    by (simp only: catch_tick [where stod = stod and e = e, OF e])
qed

lemma bybit_exact:
  assumes len: "length f < npos"
  shows "catch_std_exception (bybit_parse_body stod t0 f) =
           Ok (if tick_text Bybit f then tick_records Bybit stod t0 f else [])"
proof -
  have "bybit_parse_body stod t0 f =
      (if \<not> tick_frame Bybit f then Ok []
       else case reverse_mapping Bybit (symbol_text Bybit f) of
              None \<Rightarrow> Ok []
            | Some p \<Rightarrow>
                if bid_text Bybit f = [] \<or> ask_text Bybit f = [] then Ok []
                else
                  bind (stod (bid_text Bybit f)) (\<lambda>b. bind (stod (ask_text Bybit f)) (\<lambda>a.
                  Ok [\<lparr>exchange = venue_name Bybit, pair = p, bid = b, ask = a,
                       timestamp = t0\<rparr>])))"
    by (simp add: bybit_parse_body_def has_key_sublist [OF len]
        get_json_string_text [OF len] Let_def str_find_zero reverse_mapping_empty
        split: option.splits)
  then show ?thesis
    by (simp only: catch_tick_checked [where stod = stod])
qed

lemma okx_exact:
  assumes len: "length f < npos"
  shows "catch_std_exception (okx_parse_body stod t0 f) =
           Ok (if tick_text OKX f then tick_records OKX stod t0 f else [])"
proof -
  have "okx_parse_body stod t0 f =
      (if \<not> tick_frame OKX f then Ok []
       else case reverse_mapping OKX (symbol_text OKX f) of
              None \<Rightarrow> Ok []
            | Some p \<Rightarrow>
                if bid_text OKX f = [] \<or> ask_text OKX f = [] then Ok []
                else
                  bind (stod (bid_text OKX f)) (\<lambda>b. bind (stod (ask_text OKX f)) (\<lambda>a.
                  Ok [\<lparr>exchange = venue_name OKX, pair = p, bid = b, ask = a,
                       timestamp = t0\<rparr>])))"
    by (simp add: okx_parse_body_def has_key_sublist [OF len]
        get_json_string_text [OF len] Let_def reverse_mapping_empty split: option.splits)
  then show ?thesis
    by (simp only: catch_tick_checked [where stod = stod])
qed

lemma kraken_exact:
  assumes len: "length f < npos" and e: "stod [] = Throw e"
  shows "catch_std_exception (kraken_parse_body stod t0 f) =
           Ok (if tick_text Kraken f then tick_records Kraken stod t0 f else [])"
proof (cases "tick_frame Kraken f")
  case False
  then have "kraken_parse_body stod t0 f = Ok []"
    using str_find_sublist [OF len, of "quoted ''ticker''"]
    by (auto simp: kraken_parse_body_def is_array_opens [OF len])
  moreover from False have "\<not> tick_text Kraken f" unfolding tick_text_def by blast
  ultimately show ?thesis by simp
next
  case True
  then have a: "is_array f" and k: "sublist (quoted ''ticker'') f"
    by (simp_all add: is_array_opens [OF len])
  from k have n: "str_find f (quoted ''ticker'') 0 \<noteq> npos"
    by (simp add: str_find_sublist [OF len])
  from last_quoted_scan [OF len k]
  obtain sym where sym: "last_quoted f = Some sym"
    "str_rfind f [CHR 0x22] (sz_sub (str_rfind f [CHR 0x22] npos) 1) \<noteq> npos"
    "substr f (sz_add (str_rfind f [CHR 0x22] (sz_sub (str_rfind f [CHR 0x22] npos) 1)) 1)
       (sz_sub (sz_sub (str_rfind f [CHR 0x22] npos)
          (str_rfind f [CHR 0x22] (sz_sub (str_rfind f [CHR 0x22] npos) 1))) 1) = Ok sym"
    unfolding Let_def by blast
  have "kraken_parse_body stod t0 f =
      (if \<not> tick_frame Kraken f then Ok []
       else case reverse_mapping Kraken (symbol_text Kraken f) of
              None \<Rightarrow> Ok []
            | Some p \<Rightarrow>
                bind (stod (bid_text Kraken f)) (\<lambda>b. bind (stod (ask_text Kraken f)) (\<lambda>a.
                Ok [\<lparr>exchange = venue_name Kraken, pair = p, bid = b, ask = a,
                     timestamp = t0\<rparr>])))"
    unfolding kraken_parse_body_def Let_def sym(3)
    using True a n sym(2)
    by (simp add: sym(1) get_nested_value_text [OF len] split: option.splits)
  then show ?thesis
    by (simp only: catch_tick [where stod = stod and e = e, OF e])
qed

lemma parse_message_exact:
  assumes "length f < npos" "stod [] = Throw e"
  shows "parse_message v stod t0 f =
           Ok (if tick_text v f then tick_records v stod t0 f else [])"
proof (cases v)
  case Binance
  with binance_exact [of f stod e t0] assms show ?thesis by (simp add: parse_message_def)
next
  case Kraken
  with kraken_exact [of f stod e t0] assms show ?thesis by (simp add: parse_message_def)
next
  case Coinbase
  with coinbase_exact [of f stod e t0] assms show ?thesis by (simp add: parse_message_def)
next
  case Bybit
  with bybit_exact [of f stod t0] assms show ?thesis by (simp add: parse_message_def)
next
  case OKX
  with okx_exact [of f stod t0] assms show ?thesis by (simp add: parse_message_def)
qed

subsection \<open>Parser tolerance\<close>

text \<open>
  Claim C4, as amended. A parser reads a frame as a text, so the shape of a tick is a
  textual one: \<open>tick_text v frame\<close>, defined above from the frame alone. For every venue
  and every frame the parser returns to its caller without an exception. It notifies
  nothing when the quoted name of one of the venue's keys occurs nowhere in the frame, and
  nothing when the frame does not have the textual shape of the venue's tick: when it is
  not marked as a tick (a Kraken frame that does not open an array or lacks the name
  \<open>ticker\<close>, a Coinbase frame whose \<open>type\<close> is not \<open>ticker\<close>, a Bybit frame whose
  \<open>topic\<close> does not start with \<open>tickers.\<close>, a frame that lacks a quoted key), when its
  symbol text is not a symbol of the venue, or when its bid text or ask text is empty.
  This covers heartbeats, event acknowledgments and the frames of other channels. A frame
  that has the textual shape is notified as exactly the records of \<open>tick_records\<close>: one
  record when \<open>std::stod\<close> accepts both price texts, none otherwise; such a frame need
  not be a JSON text, see the counterexample below. (\<open>std::stod\<close> throws on the empty
  string, and a \<open>std::string\<close> is shorter than \<open>npos\<close>.)
\<close>

theorem parser_tolerance:
  assumes "stod [] = Throw e"
  shows "(\<exists>us. parse_message v stod t0 frame = Ok us)
         \<and> ((\<exists>k \<in> set (required_keys v). \<not> sublist (quoted k) frame)
              \<longrightarrow> parse_message v stod t0 frame = Ok [])
         \<and> (length frame < npos \<longrightarrow>
              (\<not> tick_text v frame \<longrightarrow> parse_message v stod t0 frame = Ok [])
              \<and> (tick_text v frame \<longrightarrow>
                    parse_message v stod t0 frame = Ok (tick_records v stod t0 frame)))"
proof -
  have b: "parse_message v stod t0 frame = Ok []"
    if k: "k \<in> set (required_keys v)" "\<not> sublist (quoted k) frame" for k
  proof (cases v)
    case Binance
    with k binance_absent show ?thesis by (simp add: parse_message_def)
  next
    case Kraken
    with k assms kraken_absent [of k frame stod e t0] show ?thesis
      by (simp add: parse_message_def)
  next
    case Coinbase
    with k coinbase_absent show ?thesis by (simp add: parse_message_def)
  next
    case Bybit
    with k bybit_absent show ?thesis by (simp add: parse_message_def)
  next
    case OKX
    with k okx_absent show ?thesis by (simp add: parse_message_def)
  qed
  have c: "parse_message v stod t0 frame =
      Ok (if tick_text v frame then tick_records v stod t0 frame else [])"
    if "length frame < npos"
    using parse_message_exact [of frame stod e v t0] that assms by simp
  from parse_message_Ok [of v stod t0 frame] b c show ?thesis by auto
qed

lemma heartbeat_no_ticker: "\<not> sublist (quoted ''ticker'') heartbeat_frame"
  by (simp add: quoted_def heartbeat_frame_def sublist_Cons_right)

lemmas text_defs =
  tick_text_def opens_array_def member_text_def array_text_def text_after_def first_quoted_def
  last_quoted_def quoted_def

lemma kraken_object_names:
  "list_all (\<lambda>k. sublist (quoted k) kraken_object_frame) (required_keys Kraken)"
  by (simp add: quoted_def kraken_object_frame_def sublist_Cons_right)

lemma kraken_object_no_tick: "\<not> tick_text Kraken kraken_object_frame"
  by (simp add: tick_text_def opens_array_def kraken_object_frame_def)

lemma bybit_orderbook_names:
  "list_all (\<lambda>k. sublist (quoted k) bybit_orderbook_frame) (required_keys Bybit)"
  by (simp add: quoted_def bybit_orderbook_frame_def sublist_Cons_right)

lemma bybit_orderbook_topic: "member_text bybit_orderbook_frame ''topic'' = ''orderbook.1.BTCUSDT''"
  by (simp add: text_defs bybit_orderbook_frame_def)

lemma bybit_orderbook_no_tick: "\<not> tick_text Bybit bybit_orderbook_frame"
  by (simp add: tick_text_def bybit_orderbook_topic)

lemma coinbase_status_names:
  "list_all (\<lambda>k. sublist (quoted k) coinbase_status_frame) (required_keys Coinbase)"
  by (simp add: quoted_def coinbase_status_frame_def sublist_Cons_right)

lemma coinbase_status_type: "member_text coinbase_status_frame ''type'' = ''status''"
  by (simp add: text_defs coinbase_status_frame_def)

lemma coinbase_status_no_tick: "\<not> tick_text Coinbase coinbase_status_frame"
  by (simp add: tick_text_def coinbase_status_type)

lemma kraken_tick_texts:
  "opens_array kraken_tick_frame"
  "sublist (quoted ''ticker'') kraken_tick_frame"
  "last_quoted kraken_tick_frame = Some ''ETH/USDT''"
  "array_text kraken_tick_frame ''b'' = ''1901.87''"
  "array_text kraken_tick_frame ''a'' = ''1902.12''"
  by (simp_all add: text_defs kraken_tick_frame_def sublist_Cons_right)

lemma kraken_eth: "reverse_mapping Kraken ''ETH/USDT'' = Some ''ETH/USDT''"
  by (simp add: reverse_mapping_def build_reverse_def assign_all_def)

lemma kraken_tick_is_tick: "tick_text Kraken kraken_tick_frame"
  by (simp add: tick_text_def kraken_tick_texts kraken_eth)

lemma kraken_tick_records:
  "tick_records Kraken stod_sample 1700000000000000000 kraken_tick_frame =
     [\<lparr>exchange = ''Kraken'', pair = ''ETH/USDT'',
       bid = Finite False 8364512718073364 (- 42),
       ask = Finite False 8365612229701140 (- 42),
       timestamp = 1700000000000000000\<rparr>]"
  by (simp add: tick_records_def kraken_tick_texts kraken_eth stod_sample_def)

lemma frame_lengths:
  "length heartbeat_frame < npos" "length kraken_object_frame < npos"
  "length bybit_orderbook_frame < npos" "length coinbase_status_frame < npos"
  "length kraken_tick_frame < npos"
  by (simp_all add: npos_def heartbeat_frame_def kraken_object_frame_def
      bybit_orderbook_frame_def coinbase_status_frame_def kraken_tick_frame_def)

text \<open>
  The Kraken parser on the heartbeat of the specification's third scenario; the three
  frames that hold every key name and are dropped; and the Kraken tick of the second
  scenario, which has the textual shape and is notified.
\<close>

theorem parser_tolerance_witness:
  "stod_sample [] = Throw InvalidArgument
   \<and> ''ticker'' \<in> set (required_keys Kraken)
   \<and> \<not> sublist (quoted ''ticker'') heartbeat_frame
   \<and> parse_message Kraken stod_sample 1700000000000000000 heartbeat_frame = Ok []
   \<and> list_all (\<lambda>k. sublist (quoted k) kraken_object_frame) (required_keys Kraken)
   \<and> length kraken_object_frame < npos
   \<and> \<not> tick_text Kraken kraken_object_frame
   \<and> parse_message Kraken stod_sample 1700000000000000000 kraken_object_frame = Ok []
   \<and> list_all (\<lambda>k. sublist (quoted k) bybit_orderbook_frame) (required_keys Bybit)
   \<and> length bybit_orderbook_frame < npos
   \<and> \<not> tick_text Bybit bybit_orderbook_frame
   \<and> parse_message Bybit stod_sample 1700000000000000000 bybit_orderbook_frame = Ok []
   \<and> list_all (\<lambda>k. sublist (quoted k) coinbase_status_frame) (required_keys Coinbase)
   \<and> length coinbase_status_frame < npos
   \<and> \<not> tick_text Coinbase coinbase_status_frame
   \<and> parse_message Coinbase stod_sample 1700000000000000000 coinbase_status_frame = Ok []
   \<and> length kraken_tick_frame < npos
   \<and> tick_text Kraken kraken_tick_frame
   \<and> parse_message Kraken stod_sample 1700000000000000000 kraken_tick_frame =
       Ok [\<lparr>exchange = ''Kraken'', pair = ''ETH/USDT'',
            bid = Finite False 8364512718073364 (- 42),
            ask = Finite False 8365612229701140 (- 42),
            timestamp = 1700000000000000000\<rparr>]"
proof -
  have s: "stod_sample [] = Throw InvalidArgument" by (simp add: stod_sample_def)
  have k: "''ticker'' \<in> set (required_keys Kraken)" by simp
  note t = parser_tolerance [of stod_sample InvalidArgument, OF s]
  from t [of Kraken 1700000000000000000 heartbeat_frame] k heartbeat_no_ticker
  have a: "parse_message Kraken stod_sample 1700000000000000000 heartbeat_frame = Ok []"
    by blast
  from t [of Kraken 1700000000000000000 kraken_object_frame] frame_lengths kraken_object_no_tick
  have b: "parse_message Kraken stod_sample 1700000000000000000 kraken_object_frame = Ok []"
    by blast
  from t [of Bybit 1700000000000000000 bybit_orderbook_frame] frame_lengths bybit_orderbook_no_tick
  have c: "parse_message Bybit stod_sample 1700000000000000000 bybit_orderbook_frame = Ok []"
    by blast
  from t [of Coinbase 1700000000000000000 coinbase_status_frame] frame_lengths
    coinbase_status_no_tick
  have d: "parse_message Coinbase stod_sample 1700000000000000000 coinbase_status_frame = Ok []"
    by blast
  from t [of Kraken 1700000000000000000 kraken_tick_frame] frame_lengths kraken_tick_is_tick
  have "parse_message Kraken stod_sample 1700000000000000000 kraken_tick_frame =
      Ok (tick_records Kraken stod_sample 1700000000000000000 kraken_tick_frame)"
    by blast
  then have e: "parse_message Kraken stod_sample 1700000000000000000 kraken_tick_frame =
       Ok [\<lparr>exchange = ''Kraken'', pair = ''ETH/USDT'',
            bid = Finite False 8364512718073364 (- 42),
            ask = Finite False 8365612229701140 (- 42),
            timestamp = 1700000000000000000\<rparr>]"
    by (simp only: kraken_tick_records)
  from s k heartbeat_no_ticker a kraken_object_names frame_lengths kraken_object_no_tick b
    bybit_orderbook_names bybit_orderbook_no_tick c coinbase_status_names
    coinbase_status_no_tick d kraken_tick_is_tick e
  show ?thesis by (simp only: simp_thms)
qed

lemma binance_odd_members:
  "object_members binance_odd_frame =
     Some [(''s'', TString ''BTCUSDT''), (''x'', TString ''b''), (''a'', TString ''1902.12'')]"
  by (simp add: object_members_def tokens_def binance_odd_frame_def between_step_def
      is_control_def)

text \<open>
  Claim C4 fails as stated. The frame \<open>{"s":"BTCUSDT","x":"b","a":"1902.12"}\<close> is a
  JSON object without a member \<open>b\<close>, so it does not have the shape of a Binance tick;
  the Binance parser finds the text \<open>"b"\<close> in the value of \<open>x\<close>, reads the next
  quoted string after the next colon as the bid, and notifies a record.
\<close>

theorem non_tick_frame_counterexample:
  "\<not> binance_tick_shape binance_odd_frame
   \<and> parse_message Binance stod_sample 1700000000000000000 binance_odd_frame =
       Ok [\<lparr>exchange = ''Binance'', pair = ''BTC/USDT'',
            bid = Finite False 8365612229701140 (- 42),
            ask = Finite False 8365612229701140 (- 42),
            timestamp = 1700000000000000000\<rparr>]"
proof -
  have a: "\<not> binance_tick_shape binance_odd_frame"
    by (simp add: binance_tick_shape_def binance_odd_members is_string_member_def)
  have k: "has_key binance_odd_frame ''s''" "has_key binance_odd_frame ''b''"
    "has_key binance_odd_frame ''a''"
    by (simp_all add: has_key_def binance_odd_frame_def string_defs)
  have s: "get_json_string binance_odd_frame ''s'' = Ok ''BTCUSDT''"
    by (simp add: get_json_string_def binance_odd_frame_def string_defs)
  have b: "get_json_string binance_odd_frame ''b'' = Ok ''1902.12''"
    by (simp add: get_json_string_def binance_odd_frame_def string_defs)
  have c: "get_json_string binance_odd_frame ''a'' = Ok ''1902.12''"
    by (simp add: get_json_string_def binance_odd_frame_def string_defs)
  have l: "map tolower ''BTCUSDT'' = ''btcusdt''"
    by (simp add: tolower_def)
  have r: "reverse_mapping Binance ''btcusdt'' = Some ''BTC/USDT''"
    by (simp add: reverse_mapping_def build_reverse_def assign_all_def)
  have "parse_message Binance stod_sample 1700000000000000000 binance_odd_frame =
       Ok [\<lparr>exchange = ''Binance'', pair = ''BTC/USDT'',
            bid = Finite False 8365612229701140 (- 42),
            ask = Finite False 8365612229701140 (- 42),
            timestamp = 1700000000000000000\<rparr>]"
    unfolding parse_message_def parse_body.simps binance_parse_body_def
    by (simp only: k s b c l r Let_def bind_Ok if_False simp_thms
        option.case venue_name.simps)
      (simp add: stod_sample_def catch_std_exception_def)
  with a show ?thesis by simp
qed


section \<open>The server: fan-out\<close>

lemma remove_if_write_result:
  "distinct cs \<Longrightarrow>
   remove_if_write w msg cs wr =
     (filter (\<lambda>c. w c = WriteOk) cs,
      \<lambda>c. if c \<in> set cs then wr c @ transferred (w c) msg else wr c)"
proof (induction cs arbitrary: wr)
  case Nil
  show ?case by simp
next
  case (Cons c cs)
  then have d: "distinct cs" and n: "c \<notin> set cs" by simp_all
  show ?case
    using n by (auto simp: Cons.IH [OF d] Let_def fun_eq_iff)
qed

lemma broadcast_clients:
  "distinct (clients st) \<Longrightarrow>
   clients (broadcast_price w u st) = filter (\<lambda>c. w c = WriteOk) (clients st)"
  by (simp add: broadcast_price_def remove_if_write_result Let_def)

lemma broadcast_wire:
  "distinct (clients st) \<Longrightarrow>
   wire (broadcast_price w u st) c =
     (if c \<in> set (clients st) then wire st c @ transferred (w c) (to_json u @ [CHR 0x0A])
      else wire st c)"
  by (simp add: broadcast_price_def remove_if_write_result Let_def)

lemma broadcast_next_socket: "next_socket (broadcast_price w u st) = next_socket st"
  by (simp add: broadcast_price_def Let_def split: prod.splits)

lemma server_inv_accept: "server_inv st \<Longrightarrow> server_inv (handle_accept st)"
  by (auto simp: server_inv_def handle_accept_def)

lemma server_inv_broadcast: "server_inv st \<Longrightarrow> server_inv (broadcast_price w u st)"
  by (auto simp: server_inv_def broadcast_clients broadcast_next_socket)

lemma server_inv_serve: "server_inv (serve events)"
proof (induction events rule: rev_induct)
  case Nil
  show ?case by (simp add: serve_def server_inv_def PriceFeedServer_def)
next
  case (snoc e events)
  then show ?case
    by (cases e) (simp_all add: serve_def server_inv_accept server_inv_broadcast)
qed

lemma accepts_clients:
  "clients ((handle_accept ^^ k) st) = clients st @ [next_socket st ..< next_socket st + k]
   \<and> next_socket ((handle_accept ^^ k) st) = next_socket st + k"
proof (induction k)
  case 0
  show ?case by simp
next
  case (Suc k)
  then show ?case by (simp add: handle_accept_def)
qed

text \<open>
  Claim C3. In any state the server reaches by accepting connections and broadcasting,
  a broadcast in which some writes fail leaves as client list exactly the clients whose
  write succeeded, in their order; each of them has received the record's line and a line
  feed, and stays in the list; a client whose write failed is in the list after no number
  of later accepts, so nothing is written to it again; and the stream of a socket that is
  not in the list is left as it was. The update is not retried: a failed client keeps
  the part of the line that was written before the error, and is written to no more.
\<close>

theorem broadcast_isolation:
  "let st = serve events; st' = broadcast_price w u st
   in clients st' = filter (\<lambda>c. w c = WriteOk) (clients st)
      \<and> (\<forall>c \<in> set (clients st).
            if w c = WriteOk
            then wire st' c = wire st c @ to_json u @ [CHR 0x0A] \<and> c \<in> set (clients st')
            else \<forall>k. c \<notin> set (clients ((handle_accept ^^ k) st')))
      \<and> (\<forall>c. c \<notin> set (clients st) \<longrightarrow> wire st' c = wire st c)"
proof -
  define st where "st = serve events"
  define st' where "st' = broadcast_price w u st"
  have inv: "server_inv st" unfolding st_def by (rule server_inv_serve)
  then have d: "distinct (clients st)" by (simp add: server_inv_def)
  have a: "clients st' = filter (\<lambda>c. w c = WriteOk) (clients st)"
    unfolding st'_def by (rule broadcast_clients [OF d])
  have b: "wire st' c = wire st c @ to_json u @ [CHR 0x0A] \<and> c \<in> set (clients st')"
    if "c \<in> set (clients st)" "w c = WriteOk" for c
    using that a by (simp add: st'_def broadcast_wire [OF d])
  have c: "c \<notin> set (clients ((handle_accept ^^ k) st'))"
    if "c \<in> set (clients st)" "w c \<noteq> WriteOk" for c k
  proof -
    from inv that(1) have "c < next_socket st" by (simp add: server_inv_def)
    then have "c < next_socket st'" by (simp add: st'_def broadcast_next_socket)
    with that(2) a show ?thesis by (simp add: accepts_clients)
  qed
  have e: "wire st' c = wire st c" if "c \<notin> set (clients st)" for c
    using that by (simp add: st'_def broadcast_wire [OF d])
  from a b c e show ?thesis
    unfolding Let_def st_def [symmetric] st'_def [symmetric] by simp
qed

text \<open>
  Three clients, the second of which fails to be written to.
\<close>

theorem broadcast_isolation_witness:
  "clients (serve [Accept, Accept, Accept]) = [0, 1, 2]
   \<and> clients (broadcast_price one_fails sample_update (serve [Accept, Accept, Accept])) = [0, 2]
   \<and> wire (broadcast_price one_fails sample_update (serve [Accept, Accept, Accept])) 0
       = to_json sample_update @ [CHR 0x0A]
   \<and> wire (broadcast_price one_fails sample_update (serve [Accept, Accept, Accept])) 2
       = to_json sample_update @ [CHR 0x0A]
   \<and> 1 \<notin> set (clients (handle_accept
         (broadcast_price one_fails sample_update (serve [Accept, Accept, Accept]))))"
proof -
  define st where "st = serve [Accept, Accept, Accept]"
  define st' where "st' = broadcast_price one_fails sample_update st"
  have s: "clients st = [0, 1, 2]" "wire st 0 = []" "wire st 2 = []"
    by (simp_all add: st_def serve_def handle_accept_def PriceFeedServer_def)
  note th = broadcast_isolation [of "[Accept, Accept, Accept]" one_fails sample_update,
      unfolded Let_def, folded st_def, folded st'_def]
  from th have a: "clients st' = filter (\<lambda>c. one_fails c = WriteOk) (clients st)" by blast
  from th have b: "\<forall>c\<in>set (clients st).
          if one_fails c = WriteOk
          then wire st' c = wire st c @ to_json sample_update @ [CHR 0x0A] \<and> c \<in> set (clients st')
          else \<forall>k. c \<notin> set (clients ((handle_accept ^^ k) st'))" by blast
  from a s have c1: "clients st' = [0, 2]" by (simp add: one_fails_def)
  from b s have w0: "wire st' 0 = to_json sample_update @ [CHR 0x0A]"
    by (simp add: one_fails_def)
  from b s have w2: "wire st' 2 = to_json sample_update @ [CHR 0x0A]"
    by (simp add: one_fails_def)
  from b s have "\<forall>k. 1 \<notin> set (clients ((handle_accept ^^ k) st'))"
    by (simp add: one_fails_def)
  then have "1 \<notin> set (clients ((handle_accept ^^ Suc 0) st'))" by (rule allE)
  then have n: "1 \<notin> set (clients (handle_accept st'))" by simp
  from s c1 w0 w2 n show ?thesis
    unfolding st'_def st_def by (simp only: simp_thms)
qed


section \<open>The line of a record\<close>

declare show_nat.simps [simp del]

subsection \<open>Digits\<close>

lemma digit_char_cases:
  "d < 10 \<Longrightarrow> is_digit (digit_char d) \<and> (digit_char d = CHR ''0'' \<longleftrightarrow> d = 0)"
proof -
  assume "d < 10"
  then consider "d = 0" | "d = 1" | "d = 2" | "d = 3" | "d = 4" | "d = 5" | "d = 6" | "d = 7"
    | "d = 8" | "d = 9" by atomize_elim arith
  then show ?thesis
    by cases (simp_all add: digit_char_def is_digit_def)
qed

lemma show_nat_digits: "show_nat n \<noteq> [] \<and> list_all is_digit (show_nat n)"
proof (induction n rule: show_nat.induct)
  case (1 n)
  show ?case
  proof (cases "n < 10")
    case True
    then show ?thesis by (simp add: show_nat.simps [of n] digit_char_cases)
  next
    case False
    with 1 show ?thesis by (simp add: show_nat.simps [of n] digit_char_cases)
  qed
qed

lemma show_nat_hd: "hd (show_nat n) = CHR ''0'' \<longleftrightarrow> n = 0"
proof (induction n rule: show_nat.induct)
  case (1 n)
  show ?case
  proof (cases "n < 10")
    case True
    then show ?thesis by (simp add: show_nat.simps [of n] digit_char_cases)
  next
    case False
    then have "n div 10 \<noteq> 0" by simp
    with 1 False show ?thesis
      using show_nat_digits [of "n div 10"] by (simp add: show_nat.simps [of n])
  qed
qed

lemma show_nat_zero: "show_nat 0 = ''0''"
  by (simp add: show_nat.simps [of 0] digit_char_def)

lemma show_nat_length: "n < 10 ^ d \<Longrightarrow> 0 < d \<Longrightarrow> length (show_nat n) \<le> d"
proof (induction n arbitrary: d rule: show_nat.induct)
  case (1 n)
  show ?case
  proof (cases "n < 10")
    case True
    with 1 show ?thesis by (simp add: show_nat.simps [of n])
  next
    case False
    obtain d' where d: "d = Suc d'" using "1.prems"(2) by (cases d) simp_all
    from False "1.prems"(1) d have "0 < d'" by (cases d') simp_all
    moreover from "1.prems"(1) d have "n div 10 < 10 ^ d'"
      by (simp add: less_mult_imp_div_less mult.commute)
    ultimately have "length (show_nat (n div 10)) \<le> d'" using "1.IH" False by simp
    with False d show ?thesis by (simp add: show_nat.simps [of n])
  qed
qed

lemma frac8_digits: "n < 100000000 \<Longrightarrow> length (frac8 n) = 8 \<and> list_all is_digit (frac8 n)"
proof -
  assume "n < 100000000"
  then have "length (show_nat n) \<le> 8" using show_nat_length [of n 8] by simp
  then show ?thesis
    using show_nat_digits [of n] by (simp add: frac8_def is_digit_def list_all_length nth_append)
qed

subsection \<open>Scanning\<close>

lemma lex_Cons:
  "scan_step st c = Some (st', ts) \<Longrightarrow> scan st (c # cs) = map_option ((@) ts) (scan st' cs)"
  by (cases "scan st' cs") simp_all

lemma lex_silent:
  "scan_step st c = Some (st', []) \<Longrightarrow> scan st (c # cs) = scan st' cs"
  by (cases "scan st' cs") simp_all

lemma lex_string_body:
  "json_safe s \<Longrightarrow>
   scan (InString acc) (s @ CHR 0x22 # rest) = map_option ((#) (TString (acc @ s))) (scan Between rest)"
proof (induction s arbitrary: acc)
  case Nil
  have "scan_step (InString acc) (CHR 0x22) = Some (Between, [TString acc])" by simp
  from lex_Cons [OF this, of rest] show ?case
    by (cases "scan Between rest") (simp_all del: scan.simps)
next
  case (Cons c s)
  then have "scan_step (InString acc) c = Some (InString (acc @ [c]), [])"
    by (simp add: json_safe_def)
  from lex_silent [OF this, of "s @ CHR 0x22 # rest"]
  have "scan (InString acc) ((c # s) @ CHR 0x22 # rest) =
          scan (InString (acc @ [c])) (s @ CHR 0x22 # rest)"
    by (simp del: scan.simps)
  also have "\<dots> = map_option ((#) (TString ((acc @ [c]) @ s))) (scan Between rest)"
    using Cons.prems by (intro Cons.IH) (simp add: json_safe_def)
  finally show ?case by (simp del: scan.simps)
qed

lemma between_step_digit:
  "is_digit c \<Longrightarrow>
   between_step c = Some (InNumber (if c = CHR ''0'' then AfterZero else IntDigits) [c], [])"
  by (auto simp: between_step_def is_digit_def)

lemma after_minus_digit:
  "is_digit c \<Longrightarrow>
   number_step AfterMinus tx c =
     Some (InNumber (if c = CHR ''0'' then AfterZero else IntDigits) (tx @ [c]), [])"
  by simp

lemma lex_int_digits:
  "list_all is_digit ds \<Longrightarrow>
   scan (InNumber IntDigits tx) (ds @ rest) = scan (InNumber IntDigits (tx @ ds)) rest"
proof (induction ds arbitrary: tx)
  case Nil
  show ?case by simp
next
  case (Cons d ds)
  then have "scan_step (InNumber IntDigits tx) d = Some (InNumber IntDigits (tx @ [d]), [])"
    by simp
  from lex_silent [OF this, of "ds @ rest"]
  have "scan (InNumber IntDigits tx) ((d # ds) @ rest) = scan (InNumber IntDigits (tx @ [d])) (ds @ rest)"
    by (simp del: scan.simps)
  also have "\<dots> = scan (InNumber IntDigits ((tx @ [d]) @ ds)) rest"
    using Cons.prems by (intro Cons.IH) simp
  finally show ?case by (simp del: scan.simps)
qed

lemma lex_frac_digits:
  "list_all is_digit ds \<Longrightarrow>
   scan (InNumber FracDigits tx) (ds @ rest) = scan (InNumber FracDigits (tx @ ds)) rest"
proof (induction ds arbitrary: tx)
  case Nil
  show ?case by simp
next
  case (Cons d ds)
  then have "scan_step (InNumber FracDigits tx) d = Some (InNumber FracDigits (tx @ [d]), [])"
    by simp
  from lex_silent [OF this, of "ds @ rest"]
  have "scan (InNumber FracDigits tx) ((d # ds) @ rest) = scan (InNumber FracDigits (tx @ [d])) (ds @ rest)"
    by (simp del: scan.simps)
  also have "\<dots> = scan (InNumber FracDigits ((tx @ [d]) @ ds)) rest"
    using Cons.prems by (intro Cons.IH) simp
  finally show ?case by (simp del: scan.simps)
qed

lemma show_nat_split:
  "\<exists>c cs. show_nat n = c # cs \<and> is_digit c \<and> list_all is_digit cs
      \<and> (c = CHR ''0'' \<longleftrightarrow> n = 0) \<and> (n = 0 \<longrightarrow> cs = [])"
proof -
  obtain c cs where s: "show_nat n = c # cs"
    using show_nat_digits [of n] by (cases "show_nat n") simp_all
  from s show_nat_digits [of n] have "is_digit c" "list_all is_digit cs" by simp_all
  moreover from s show_nat_hd [of n] have "c = CHR ''0'' \<longleftrightarrow> n = 0" by simp
  moreover from s show_nat_zero have "n = 0 \<longrightarrow> cs = []" by auto
  ultimately show ?thesis using s by blast
qed

lemma lex_show_nat:
  "scan Between (show_nat n @ rest) = scan (InNumber (nat_state n) (show_nat n)) rest"
proof -
  obtain c cs where s: "show_nat n = c # cs" "is_digit c" "list_all is_digit cs"
    "c = CHR ''0'' \<longleftrightarrow> n = 0" "n = 0 \<longrightarrow> cs = []"
    using show_nat_split [of n] by blast
  have "scan_step Between c = Some (InNumber (nat_state n) [c], [])"
    using s(2,4) by (simp add: between_step_digit nat_state_def)
  from lex_silent [OF this, of "cs @ rest"]
  have "scan Between (show_nat n @ rest) = scan (InNumber (nat_state n) [c]) (cs @ rest)"
    by (simp add: s(1) del: scan.simps)
  also have "\<dots> = scan (InNumber (nat_state n) (show_nat n)) rest"
    using s lex_int_digits [of cs "[c]" rest]
    by (cases "n = 0") (simp_all add: nat_state_def del: scan.simps)
  finally show ?thesis .
qed

lemma lex_minus_show_nat:
  "scan Between (CHR ''-'' # show_nat n @ rest) =
     scan (InNumber (nat_state n) (CHR ''-'' # show_nat n)) rest"
proof -
  obtain c cs where s: "show_nat n = c # cs" "is_digit c" "list_all is_digit cs"
    "c = CHR ''0'' \<longleftrightarrow> n = 0" "n = 0 \<longrightarrow> cs = []"
    using show_nat_split [of n] by blast
  have m: "scan_step Between (CHR ''-'') = Some (InNumber AfterMinus ''-'', [])"
    by (simp add: between_step_def)
  have "scan_step (InNumber AfterMinus ''-'') c = Some (InNumber (nat_state n) (''-'' @ [c]), [])"
    using s(2,4) by (simp add: nat_state_def)
  from lex_silent [OF m, of "c # cs @ rest"] lex_silent [OF this, of "cs @ rest"]
  have "scan Between (CHR ''-'' # show_nat n @ rest) =
          scan (InNumber (nat_state n) [CHR ''-'', c]) (cs @ rest)"
    by (simp add: s(1) del: scan.simps)
  also have "\<dots> = scan (InNumber (nat_state n) (CHR ''-'' # show_nat n)) rest"
    using s lex_int_digits [of cs "[CHR ''-'', c]" rest]
    by (cases "n = 0") (simp_all add: nat_state_def del: scan.simps)
  finally show ?thesis .
qed

lemma lex_fraction:
  assumes "list_all is_digit fs" "fs \<noteq> []"
  shows "scan (InNumber (nat_state n) tx) (CHR ''.'' # fs @ rest) =
           scan (InNumber FracDigits (tx @ CHR ''.'' # fs)) rest"
proof -
  obtain f fs' where f: "fs = f # fs'" using assms(2) by (cases fs) simp_all
  have p: "scan_step (InNumber (nat_state n) tx) (CHR ''.'') = Some (InNumber AfterPoint (tx @ ''.''), [])"
    by (simp add: nat_state_def is_digit_def)
  have q: "scan_step (InNumber AfterPoint (tx @ ''.'')) f =
             Some (InNumber FracDigits ((tx @ ''.'') @ [f]), [])"
    using assms(1) f by simp
  from assms(1) f have "list_all is_digit fs'" by simp
  from lex_frac_digits [OF this, of "(tx @ ''.'') @ [f]" rest]
    lex_silent [OF p, of "fs @ rest"] lex_silent [OF q, of "fs' @ rest"]
  show ?thesis by (simp add: f del: scan.simps)
qed

lemma lex_number_end:
  assumes "st \<in> {AfterZero, IntDigits, FracDigits, ExpDigits}" "ends_number c"
  shows "scan (InNumber st tx) (c # rest) = map_option ((#) (TNumber tx)) (scan Between (c # rest))"
proof -
  from assms have n: "scan_step (InNumber st tx) c = end_number tx c"
    by (auto simp: ends_number_def)
  show ?thesis
  proof (cases "between_step c")
    case None
    with n show ?thesis by (simp add: end_number_def)
  next
    case (Some r)
    obtain st' ts where r: "r = (st', ts)" by (cases r)
    with Some n have a: "scan_step (InNumber st tx) c = Some (st', TNumber tx # ts)"
      by (simp add: end_number_def)
    from Some r have b: "scan_step Between c = Some (st', ts)" by simp
    show ?thesis
      unfolding lex_Cons [OF a] lex_Cons [OF b]
      by (cases "scan st' rest") simp_all
  qed
qed

lemma lex_show_int:
  assumes "ends_number c"
  shows "scan Between (show_int i @ c # rest) =
           map_option ((#) (TNumber (show_int i))) (scan Between (c # rest))"
proof (cases "i < 0")
  case True
  have "nat_state (nat (- i)) \<in> {AfterZero, IntDigits, FracDigits, ExpDigits}"
    by (simp add: nat_state_def)
  from lex_number_end [OF this assms] lex_minus_show_nat [of "nat (- i)" "c # rest"] True
  show ?thesis by (simp add: show_int_def del: scan.simps)
next
  case False
  have "nat_state (nat i) \<in> {AfterZero, IntDigits, FracDigits, ExpDigits}"
    by (simp add: nat_state_def)
  from lex_number_end [OF this assms] lex_show_nat [of "nat i" "c # rest"] False
  show ?thesis by (simp add: show_int_def del: scan.simps)
qed

lemma lex_fixed8:
  assumes "is_finite d" "ends_number c"
  shows "scan Between (fixed8 d @ c # rest) =
           map_option ((#) (TNumber (fixed8 d))) (scan Between (c # rest))"
proof -
  from assms(1) obtain neg m e where d: "d = Finite neg m e" by (cases d) simp_all
  define n where "n = scaled8 m e"
  define ip where "ip = n div 100000000"
  define fp where "fp = frac8 (n mod 100000000)"
  have fp: "list_all is_digit fp" "fp \<noteq> []" "length fp = 8"
    using frac8_digits [of "n mod 100000000"] by (auto simp: fp_def)
  have fin: "FracDigits \<in> {AfterZero, IntDigits, FracDigits, ExpDigits}" by simp
  show ?thesis
  proof (cases neg)
    case True
    then have f: "fixed8 d = CHR ''-'' # show_nat ip @ CHR ''.'' # fp"
      by (simp add: d Let_def n_def ip_def fp_def)
    have "scan Between (fixed8 d @ c # rest) =
            scan (InNumber (nat_state ip) (CHR ''-'' # show_nat ip)) (CHR ''.'' # fp @ c # rest)"
      using lex_minus_show_nat [of ip "CHR ''.'' # fp @ c # rest"] by (simp add: f del: scan.simps)
    also have "\<dots> = scan (InNumber FracDigits (fixed8 d)) (c # rest)"
      using lex_fraction [OF fp(1,2), of ip "CHR ''-'' # show_nat ip" "c # rest"] by (simp add: f del: scan.simps)
    also have "\<dots> = map_option ((#) (TNumber (fixed8 d))) (scan Between (c # rest))"
      by (rule lex_number_end [OF fin assms(2)])
    finally show ?thesis .
  next
    case False
    then have f: "fixed8 d = show_nat ip @ CHR ''.'' # fp"
      by (simp add: d Let_def n_def ip_def fp_def)
    have "scan Between (fixed8 d @ c # rest) =
            scan (InNumber (nat_state ip) (show_nat ip)) (CHR ''.'' # fp @ c # rest)"
      using lex_show_nat [of ip "CHR ''.'' # fp @ c # rest"] by (simp add: f del: scan.simps)
    also have "\<dots> = scan (InNumber FracDigits (fixed8 d)) (c # rest)"
      using lex_fraction [OF fp(1,2), of ip "show_nat ip" "c # rest"] by (simp add: f del: scan.simps)
    also have "\<dots> = map_option ((#) (TNumber (fixed8 d))) (scan Between (c # rest))"
      by (rule lex_number_end [OF fin assms(2)])
    finally show ?thesis .
  qed
qed

subsection \<open>The tokens of a record's line\<close>

lemma ends_number_comma: "ends_number (CHR '','')"
  by (simp add: ends_number_def is_digit_def is_exp_mark_def)

lemma ends_number_rbrace: "ends_number (CHR ''}'')"
  by (simp add: ends_number_def is_digit_def is_exp_mark_def)

lemma tokens_to_json:
  assumes "json_safe (exchange u)" "json_safe (pair u)" "is_finite (bid u)" "is_finite (ask u)"
  shows "tokens (to_json u) =
           Some [LBrace, TString ''exchange'', Colon, TString (exchange u), Comma,
                 TString ''pair'', Colon, TString (pair u), Comma,
                 TString ''bid'', Colon, TNumber (fixed8 (bid u)), Comma,
                 TString ''ask'', Colon, TNumber (fixed8 (ask u)), Comma,
                 TString ''timestamp'', Colon, TNumber (show_int (epoch_ms (timestamp u))),
                 RBrace]"
proof -
  define ms where "ms = epoch_ms (timestamp u)"
  define r1 where "r1 = show_int ms @ ''}''"
  define r2 where \<open>r2 = fixed8 (ask u) @ '','' @ ''"timestamp":'' @ r1\<close>
  define r3 where \<open>r3 = fixed8 (bid u) @ '','' @ ''"ask":'' @ r2\<close>
  define r4 where \<open>r4 = pair u @ ''",'' @ ''"bid":'' @ r3\<close>
  define r5 where \<open>r5 = exchange u @ ''",'' @ ''"pair":"'' @ r4\<close>
  have t1: "scan Between r1 = Some [TNumber (show_int ms), RBrace]"
    unfolding r1_def
    using lex_show_int [OF ends_number_rbrace, of ms "[]"]
    by (simp add: between_step_def)
  have t2: "scan Between r2 =
      Some [TNumber (fixed8 (ask u)), Comma, TString ''timestamp'', Colon,
            TNumber (show_int ms), RBrace]"
    unfolding r2_def
    using lex_fixed8 [OF assms(4) ends_number_comma, of \<open>''"timestamp":'' @ r1\<close>]
    by (simp add: between_step_def is_control_def t1)
  have t3: "scan Between r3 =
      Some [TNumber (fixed8 (bid u)), Comma, TString ''ask'', Colon,
            TNumber (fixed8 (ask u)), Comma, TString ''timestamp'', Colon,
            TNumber (show_int ms), RBrace]"
    unfolding r3_def
    using lex_fixed8 [OF assms(3) ends_number_comma, of \<open>''"ask":'' @ r2\<close>]
    by (simp add: between_step_def is_control_def t2)
  have t4: "scan (InString []) r4 =
      Some [TString (pair u), Comma, TString ''bid'', Colon,
            TNumber (fixed8 (bid u)), Comma, TString ''ask'', Colon,
            TNumber (fixed8 (ask u)), Comma, TString ''timestamp'', Colon,
            TNumber (show_int ms), RBrace]"
    unfolding r4_def
    using lex_string_body [OF assms(2), of "[]" \<open>'','' @ ''"bid":'' @ r3\<close>]
    by (simp add: between_step_def is_control_def t3)
  have t5: "scan (InString []) r5 =
      Some [TString (exchange u), Comma, TString ''pair'', Colon,
            TString (pair u), Comma, TString ''bid'', Colon,
            TNumber (fixed8 (bid u)), Comma, TString ''ask'', Colon,
            TNumber (fixed8 (ask u)), Comma, TString ''timestamp'', Colon,
            TNumber (show_int ms), RBrace]"
    unfolding r5_def
    using lex_string_body [OF assms(1), of "[]" \<open>'','' @ ''"pair":"'' @ r4\<close>]
    by (simp add: between_step_def is_control_def t4)
  have j: \<open>to_json u = ''{"exchange":"'' @ r5\<close>
    by (simp add: to_json_def Let_def r5_def r4_def r3_def r2_def r1_def ms_def)
  show ?thesis
    unfolding tokens_def j
    by (simp add: between_step_def is_control_def t5 ms_def)
qed

subsection \<open>Characters of a line\<close>

lemma is_digit_not_control: "is_digit c \<Longrightarrow> \<not> is_control c"
proof -
  assume "is_digit c"
  then consider "c = CHR ''0''" | "c = CHR ''1''" | "c = CHR ''2''" | "c = CHR ''3''"
    | "c = CHR ''4''" | "c = CHR ''5''" | "c = CHR ''6''" | "c = CHR ''7''" | "c = CHR ''8''"
    | "c = CHR ''9''"
    unfolding is_digit_def by fastforce
  then show ?thesis by cases (simp_all add: is_control_def)
qed

lemma show_nat_no_control: "c \<in> set (show_nat n) \<Longrightarrow> \<not> is_control c"
proof -
  assume "c \<in> set (show_nat n)"
  with show_nat_digits [of n] have "is_digit c" by (simp add: list_all_iff)
  then show ?thesis by (rule is_digit_not_control)
qed

lemma minus_not_control: "\<not> is_control (CHR ''-'')" "\<not> is_control (CHR ''.'')"
  by (simp_all add: is_control_def)

lemma show_int_no_control: "c \<in> set (show_int i) \<Longrightarrow> \<not> is_control c"
proof -
  assume "c \<in> set (show_int i)"
  then consider "c = CHR ''-''" | "c \<in> set (show_nat (nat (- i)))" | "c \<in> set (show_nat (nat i))"
    by (cases "i < 0") (simp_all add: show_int_def, blast)
  then show ?thesis
  proof cases
    case 1
    then show ?thesis by (simp only: minus_not_control simp_thms)
  next
    case 2
    then show ?thesis by (rule show_nat_no_control)
  next
    case 3
    then show ?thesis by (rule show_nat_no_control)
  qed
qed

lemma frac8_no_control: "n < 100000000 \<Longrightarrow> c \<in> set (frac8 n) \<Longrightarrow> \<not> is_control c"
proof -
  assume "n < 100000000" "c \<in> set (frac8 n)"
  with frac8_digits [of n] have "is_digit c" by (simp add: list_all_iff)
  then show ?thesis by (rule is_digit_not_control)
qed

lemma fixed8_no_control: "is_finite d \<Longrightarrow> c \<in> set (fixed8 d) \<Longrightarrow> \<not> is_control c"
proof (cases d)
  case (Finite neg m e)
  define ip where "ip = show_nat (scaled8 m e div 100000000)"
  define fp where "fp = frac8 (scaled8 m e mod 100000000)"
  assume "c \<in> set (fixed8 d)"
  then have "c \<in> set ((if neg then ''-'' else []) @ ip @ CHR ''.'' # fp)"
    by (simp add: Finite Let_def ip_def fp_def)
  then consider "c = CHR ''-''" | "c \<in> set ip" | "c = CHR ''.''" | "c \<in> set fp"
    by (cases neg) (simp_all, blast+)
  then show ?thesis
  proof cases
    case 1
    then show ?thesis by (simp only: minus_not_control simp_thms)
  next
    case 2
    then show ?thesis unfolding ip_def by (rule show_nat_no_control)
  next
    case 3
    then show ?thesis by (simp only: minus_not_control simp_thms)
  next
    case 4
    have "scaled8 m e mod 100000000 < 100000000" by simp
    from frac8_no_control [OF this] 4 show ?thesis unfolding fp_def by blast
  qed
qed simp_all

lemma json_safe_no_control: "json_safe s \<Longrightarrow> c \<in> set s \<Longrightarrow> \<not> is_control c"
  by (auto simp: json_safe_def list_all_iff)

lemma to_json_no_control:
  assumes "json_safe (exchange u)" "json_safe (pair u)" "is_finite (bid u)" "is_finite (ask u)"
  shows "list_all (\<lambda>c. \<not> is_control c) (to_json u)"
proof -
  have e: "list_all (\<lambda>c. \<not> is_control c) (exchange u)"
    using assms(1) json_safe_no_control by (auto simp: list_all_iff)
  have p: "list_all (\<lambda>c. \<not> is_control c) (pair u)"
    using assms(2) json_safe_no_control by (auto simp: list_all_iff)
  have b: "list_all (\<lambda>c. \<not> is_control c) (fixed8 (bid u))"
    using assms(3) fixed8_no_control by (auto simp: list_all_iff)
  have a: "list_all (\<lambda>c. \<not> is_control c) (fixed8 (ask u))"
    using assms(4) fixed8_no_control by (auto simp: list_all_iff)
  have t: "list_all (\<lambda>c. \<not> is_control c) (show_int (epoch_ms (timestamp u)))"
    using show_int_no_control by (auto simp: list_all_iff)
  have l: \<open>list_all (\<lambda>c. \<not> is_control c) ''{"exchange":"''\<close>
    \<open>list_all (\<lambda>c. \<not> is_control c) ''",''\<close>
    \<open>list_all (\<lambda>c. \<not> is_control c) ''"pair":"''\<close>
    \<open>list_all (\<lambda>c. \<not> is_control c) ''"bid":''\<close>
    \<open>list_all (\<lambda>c. \<not> is_control c) '',''\<close>
    \<open>list_all (\<lambda>c. \<not> is_control c) ''"ask":''\<close>
    \<open>list_all (\<lambda>c. \<not> is_control c) ''"timestamp":''\<close>
    \<open>list_all (\<lambda>c. \<not> is_control c) ''}''\<close>
    by (simp_all add: is_control_def)
  show ?thesis
    unfolding to_json_def Let_def
    by (simp only: list_all_append e p b a t l simp_thms)
qed

subsection \<open>The shape of a rendered number\<close>

lemma takeWhile_digits:
  "list_all is_digit ds \<Longrightarrow> takeWhile is_digit (ds @ CHR ''.'' # fs) = ds"
  by (induction ds) (simp_all add: is_digit_def)

lemma dropWhile_digits:
  "list_all is_digit ds \<Longrightarrow> dropWhile is_digit (ds @ CHR ''.'' # fs) = CHR ''.'' # fs"
  by (induction ds) (simp_all add: is_digit_def)

lemma fixed8_shape: "is_finite d \<Longrightarrow> fixed_point_8 (fixed8 d)"
proof (cases d)
  case (Finite neg m e)
  define ip where "ip = show_nat (scaled8 m e div 100000000)"
  define fp where "fp = frac8 (scaled8 m e mod 100000000)"
  have ip: "ip \<noteq> []" "list_all is_digit ip"
    using show_nat_digits by (simp_all add: ip_def)
  have fp: "length fp = 8" "list_all is_digit fp"
    using frac8_digits [of "scaled8 m e mod 100000000"] by (simp_all add: fp_def)
  from ip obtain c cs where c: "ip = c # cs" "is_digit c" by (cases ip) simp_all
  then have m: "c \<noteq> CHR ''-''" by (auto simp: is_digit_def)
  have "fixed8 d = (if neg then ''-'' else []) @ ip @ CHR ''.'' # fp"
    by (simp add: Finite Let_def ip_def fp_def)
  then show ?thesis
    using ip fp takeWhile_digits [OF ip(2), of fp] dropWhile_digits [OF ip(2), of fp] c m
    by (cases neg) (simp_all add: fixed_point_8_def Let_def)
qed simp_all

subsection \<open>Whitespace\<close>

lemma is_digit_not_whitespace: "is_digit c \<Longrightarrow> \<not> is_whitespace c"
proof -
  assume "is_digit c"
  then consider "c = CHR ''0''" | "c = CHR ''1''" | "c = CHR ''2''" | "c = CHR ''3''"
    | "c = CHR ''4''" | "c = CHR ''5''" | "c = CHR ''6''" | "c = CHR ''7''" | "c = CHR ''8''"
    | "c = CHR ''9''"
    unfolding is_digit_def by fastforce
  then show ?thesis by cases (simp_all add: is_whitespace_def)
qed

lemma show_nat_no_whitespace: "list_all (\<lambda>c. \<not> is_whitespace c) (show_nat n)"
  using show_nat_digits [of n] is_digit_not_whitespace by (auto simp: list_all_iff)

lemma show_int_no_whitespace: "list_all (\<lambda>c. \<not> is_whitespace c) (show_int i)"
  using show_nat_no_whitespace by (simp add: show_int_def is_whitespace_def)

lemma frac8_no_whitespace: "list_all (\<lambda>c. \<not> is_whitespace c) (frac8 n)"
proof -
  have "list_all (\<lambda>c. \<not> is_whitespace c) (replicate k CHR ''0'')" for k
    by (induction k) (simp_all add: is_whitespace_def)
  with show_nat_no_whitespace [of n] show ?thesis
    by (simp only: frac8_def list_all_append simp_thms)
qed

lemma fixed8_no_whitespace: "list_all (\<lambda>c. \<not> is_whitespace c) (fixed8 d)"
proof (cases d)
  case (Finite neg m e)
  have "list_all (\<lambda>c. \<not> is_whitespace c) (if neg then ''-'' else [])"
    "list_all (\<lambda>c. \<not> is_whitespace c) ''.''"
    by (simp_all add: is_whitespace_def)
  then show ?thesis
    using show_nat_no_whitespace frac8_no_whitespace
    by (simp only: Finite fixed8.simps Let_def list_all_append simp_thms)
next
  case (Infinity neg)
  then show ?thesis by (simp add: is_whitespace_def)
next
  case (NaN neg)
  then show ?thesis by (simp add: is_whitespace_def)
qed

lemma to_json_whitespace:
  "list_all (\<lambda>c. is_whitespace c \<longrightarrow> c \<in> set (exchange u) \<union> set (pair u)) (to_json u)"
proof -
  let ?Q = "\<lambda>c. is_whitespace c \<longrightarrow> c \<in> set (exchange u) \<union> set (pair u)"
  have n: "list_all ?Q s" if "list_all (\<lambda>c. \<not> is_whitespace c) s" for s
    using that by (simp add: list_all_iff)
  have e: "list_all ?Q (exchange u)" "list_all ?Q (pair u)"
    by (simp_all add: list_all_iff)
  have l: \<open>list_all ?Q ''{"exchange":"''\<close>
    \<open>list_all ?Q ''",''\<close>
    \<open>list_all ?Q ''"pair":"''\<close>
    \<open>list_all ?Q ''"bid":''\<close>
    \<open>list_all ?Q '',''\<close>
    \<open>list_all ?Q ''"ask":''\<close>
    \<open>list_all ?Q ''"timestamp":''\<close>
    \<open>list_all ?Q ''}''\<close>
    by (simp_all add: is_whitespace_def)
  show ?thesis
    unfolding to_json_def Let_def
    by (simp only: list_all_append e l n [OF fixed8_no_whitespace]
        n [OF show_int_no_whitespace] simp_thms)
qed

lemma to_json_layout:
  \<open>to_json u =
     ''{"exchange":"'' @ exchange u @ ''","pair":"'' @ pair u @
     ''","bid":'' @ fixed8 (bid u) @ '',"ask":'' @ fixed8 (ask u) @
     '',"timestamp":'' @ show_int (epoch_ms (timestamp u)) @ ''}''\<close>
  by (simp add: to_json_def Let_def)

lemma to_json_line_feed:
  "CHR 0x0A \<in> set (to_json u) \<longleftrightarrow> CHR 0x0A \<in> set (exchange u) \<or> CHR 0x0A \<in> set (pair u)"
proof
  assume a: "CHR 0x0A \<in> set (to_json u)"
  have "is_whitespace (CHR 0x0A)" by (simp add: is_whitespace_def)
  with a to_json_whitespace [of u] show "CHR 0x0A \<in> set (exchange u) \<or> CHR 0x0A \<in> set (pair u)"
    by (auto simp: list_all_iff)
next
  assume "CHR 0x0A \<in> set (exchange u) \<or> CHR 0x0A \<in> set (pair u)"
  then show "CHR 0x0A \<in> set (to_json u)"
    by (auto simp: to_json_layout)
qed

subsection \<open>The encoding\<close>

text \<open>
  Claim C6, as amended. For every record, the line is the five members exchange, pair,
  bid, ask, timestamp in this order, written with nothing between them but the quotes,
  colons and commas: the exchange and the pair as they are, the bid and the ask as
  rendered numbers, and the timestamp as the record's time in milliseconds since the
  epoch. Every whitespace character of the line is a character of the exchange or of the
  pair, and the line holds a line feed exactly when one of the two does. A finite bid or
  ask is rendered as an optional sign, digits, a point and eight digits. When the exchange
  and the pair hold no double quote, no backslash and no control character and the bid and
  the ask are finite, the line holds no control character, so no line feed, and read as
  JSON it is an object of exactly these five members. For every record, a broadcast appends
  the line and one line feed to the stream of every client it writes to.
\<close>

theorem to_json_encoding:
  \<open>to_json u =
      ''{"exchange":"'' @ exchange u @ ''","pair":"'' @ pair u @
      ''","bid":'' @ fixed8 (bid u) @ '',"ask":'' @ fixed8 (ask u) @
      '',"timestamp":'' @ show_int (epoch_ms (timestamp u)) @ ''}''
   \<and> (\<forall>c \<in> set (to_json u). is_whitespace c \<longrightarrow> c \<in> set (exchange u) \<union> set (pair u))
   \<and> (CHR 0x0A \<in> set (to_json u) \<longleftrightarrow>
        CHR 0x0A \<in> set (exchange u) \<or> CHR 0x0A \<in> set (pair u))
   \<and> (is_finite (bid u) \<longrightarrow> fixed_point_8 (fixed8 (bid u)))
   \<and> (is_finite (ask u) \<longrightarrow> fixed_point_8 (fixed8 (ask u)))
   \<and> (json_safe (exchange u) \<and> json_safe (pair u) \<and> is_finite (bid u) \<and> is_finite (ask u) \<longrightarrow>
        (\<forall>c \<in> set (to_json u). \<not> is_control c)
        \<and> CHR 0x0A \<notin> set (to_json u)
        \<and> object_members (to_json u) =
            Some [(''exchange'', TString (exchange u)), (''pair'', TString (pair u)),
                  (''bid'', TNumber (fixed8 (bid u))), (''ask'', TNumber (fixed8 (ask u))),
                  (''timestamp'', TNumber (show_int (epoch_ms (timestamp u))))])
   \<and> (\<forall>c \<in> set (clients (serve events)). w c = WriteOk \<longrightarrow>
         wire (broadcast_price w u (serve events)) c =
           wire (serve events) c @ to_json u @ [CHR 0x0A])\<close>
proof -
  have b: "\<forall>c \<in> set (to_json u). is_whitespace c \<longrightarrow> c \<in> set (exchange u) \<union> set (pair u)"
    using to_json_whitespace [of u] by (simp add: list_all_iff)
  have e: "is_finite (bid u) \<longrightarrow> fixed_point_8 (fixed8 (bid u))"
    "is_finite (ask u) \<longrightarrow> fixed_point_8 (fixed8 (ask u))"
    by (simp_all add: fixed8_shape)
  have d: "(\<forall>c \<in> set (to_json u). \<not> is_control c)
        \<and> CHR 0x0A \<notin> set (to_json u)
        \<and> object_members (to_json u) =
            Some [(''exchange'', TString (exchange u)), (''pair'', TString (pair u)),
                  (''bid'', TNumber (fixed8 (bid u))), (''ask'', TNumber (fixed8 (ask u))),
                  (''timestamp'', TNumber (show_int (epoch_ms (timestamp u))))]"
    if s: "json_safe (exchange u)" "json_safe (pair u)" "is_finite (bid u)" "is_finite (ask u)"
  proof -
    have c: "\<forall>c \<in> set (to_json u). \<not> is_control c"
      using to_json_no_control [OF s] by (simp add: list_all_iff)
    have "is_control (CHR 0x0A)" by (simp add: is_control_def)
    with c have l: "CHR 0x0A \<notin> set (to_json u)" by blast
    have "object_members (to_json u) =
            Some [(''exchange'', TString (exchange u)), (''pair'', TString (pair u)),
                  (''bid'', TNumber (fixed8 (bid u))), (''ask'', TNumber (fixed8 (ask u))),
                  (''timestamp'', TNumber (show_int (epoch_ms (timestamp u))))]"
      by (simp add: object_members_def tokens_to_json [OF s])
    with c l show ?thesis by (simp only: simp_thms)
  qed
  have f: "\<forall>c \<in> set (clients (serve events)). w c = WriteOk \<longrightarrow>
               wire (broadcast_price w u (serve events)) c =
                 wire (serve events) c @ to_json u @ [CHR 0x0A]"
    using server_inv_serve [of events]
    by (simp add: server_inv_def broadcast_wire)
  from to_json_layout [of u] b to_json_line_feed [of u] e d f show ?thesis
    by (simp only: simp_thms) blast
qed

text \<open>
  Claim C10, as amended. The line of a record is a JSON object whenever its exchange and
  pair hold no double quote, no backslash and no control character and its bid and ask
  are finite; the two strings are put between double quotes as they are, unescaped; and
  some record with a double quote in its exchange has a line that is not a JSON object.
\<close>

theorem to_json_well_formed:
  "(\<forall>u. json_safe (exchange u) \<and> json_safe (pair u) \<and> is_finite (bid u) \<and> is_finite (ask u)
         \<longrightarrow> is_json_object (to_json u))
   \<and> (\<forall>u. sublist (quoted (exchange u)) (to_json u) \<and> sublist (quoted (pair u)) (to_json u))
   \<and> (\<exists>u. CHR 0x22 \<in> set (exchange u) \<and> \<not> is_json_object (to_json u))"
proof -
  have a: "is_json_object (to_json u)"
    if "json_safe (exchange u)" "json_safe (pair u)" "is_finite (bid u)" "is_finite (ask u)"
    for u
    by (simp add: is_json_object_def tokens_to_json [OF that])
  have b: "sublist (quoted (exchange u)) (to_json u)" for u
  proof -
    have \<open>to_json u = ''{"exchange":'' @ quoted (exchange u) @
        '','' @ ''"pair":"'' @ pair u @ ''",'' @
         ''"bid":'' @ fixed8 (bid u) @ '','' @
         ''"ask":'' @ fixed8 (ask u) @ '','' @
         ''"timestamp":'' @ show_int (epoch_ms (timestamp u)) @ ''}''\<close>
      by (simp add: to_json_def Let_def quoted_def)
    then show ?thesis unfolding sublist_def by blast
  qed
  have c: "sublist (quoted (pair u)) (to_json u)" for u
  proof -
    have \<open>to_json u = (''{"exchange":"'' @ exchange u @ ''",'' @ ''"pair":'') @ quoted (pair u) @
        '','' @
         ''"bid":'' @ fixed8 (bid u) @ '','' @
         ''"ask":'' @ fixed8 (ask u) @ '','' @
         ''"timestamp":'' @ show_int (epoch_ms (timestamp u)) @ ''}''\<close>
      by (simp add: to_json_def Let_def quoted_def)
    then show ?thesis unfolding sublist_def by blast
  qed
  let ?u = "sample_update\<lparr>exchange := [CHR 0x22]\<rparr>"
  have "\<not> is_json_object (to_json ?u)"
    by (simp add: is_json_object_def tokens_def to_json_def sample_update_def Let_def
        between_step_def is_control_def is_digit_def)
  then have d: "\<exists>u. CHR 0x22 \<in> set (exchange u) \<and> \<not> is_json_object (to_json u)"
    by (intro exI [of _ ?u]) simp
  from a b c d show ?thesis by blast
qed

subsection \<open>The sample record\<close>

lemma show_nat_numeral:
  "show_nat (numeral k) =
     (if numeral k < (10::nat) then [digit_char (numeral k)]
      else show_nat (numeral k div 10) @ [digit_char (numeral k mod 10)])"
  by (rule show_nat.simps)

lemma show_nat_one: "show_nat (Suc 0) = ''1''"
  by (simp add: show_nat.simps [of "Suc 0"] digit_char_def)

lemmas render_defs =
  show_nat_numeral show_nat_zero show_nat_one digit_char_def show_int_def epoch_ms_def
  scaled8_def round_half_even_def frac8_def Let_def

lemma sample_line:
  \<open>to_json sample_update =
     ''{"exchange":"Binance","pair":"BTC/USDT","bid":27000.10000000,"ask":27000.20000000,"timestamp":1700000000000}''\<close>
  by (simp add: to_json_def sample_update_def render_defs)

lemma sample_safe:
  "json_safe (exchange sample_update)" "json_safe (pair sample_update)"
  "is_finite (bid sample_update)" "is_finite (ask sample_update)"
  by (simp_all add: sample_update_def json_safe_def is_control_def)

text \<open>
  The first scenario of the specification: Binance, BTC/USDT, 27000.10 and 27000.20.
\<close>

theorem to_json_encoding_witness:
  \<open>json_safe (exchange sample_update) \<and> json_safe (pair sample_update)
   \<and> is_finite (bid sample_update) \<and> is_finite (ask sample_update)
   \<and> to_json sample_update =
       ''{"exchange":"Binance","pair":"BTC/USDT","bid":27000.10000000,"ask":27000.20000000,"timestamp":1700000000000}''
   \<and> object_members (to_json sample_update) =
       Some [(''exchange'', TString ''Binance''), (''pair'', TString ''BTC/USDT''),
             (''bid'', TNumber ''27000.10000000''), (''ask'', TNumber ''27000.20000000''),
             (''timestamp'', TNumber ''1700000000000'')]
   \<and> CHR 0x0A \<notin> set (to_json sample_update)
   \<and> list_all (\<lambda>c. \<not> is_whitespace c) (to_json sample_update)
   \<and> fixed_point_8 (fixed8 (bid sample_update))
   \<and> clients (serve [Accept]) = [0]
   \<and> wire (broadcast_price (\<lambda>c. WriteOk) sample_update (serve [Accept])) 0 =
       to_json sample_update @ [CHR 0x0A]\<close>
proof -
  note w = to_json_encoding [of sample_update "[Accept]" "\<lambda>c. WriteOk"]
  have s: "clients (serve [Accept]) = [0]" "wire (serve [Accept]) 0 = []"
    by (simp_all add: serve_def handle_accept_def PriceFeedServer_def)
  have b: "fixed8 (bid sample_update) = ''27000.10000000''"
    by (simp add: sample_update_def render_defs)
  have a: "fixed8 (ask sample_update) = ''27000.20000000''"
    by (simp add: sample_update_def render_defs)
  have t: "show_int (epoch_ms (timestamp sample_update)) = ''1700000000000''"
    by (simp add: sample_update_def render_defs)
  have e: "exchange sample_update = ''Binance''" "pair sample_update = ''BTC/USDT''"
    by (simp_all add: sample_update_def)
  from w have "\<forall>c \<in> set (to_json sample_update).
      is_whitespace c \<longrightarrow> c \<in> set (exchange sample_update) \<union> set (pair sample_update)"
    by blast
  then have ws: "list_all (\<lambda>c. \<not> is_whitespace c) (to_json sample_update)"
    unfolding list_all_iff by (auto simp: sample_update_def is_whitespace_def)
  from w sample_safe have fp: "fixed_point_8 (fixed8 (bid sample_update))" by blast
  from w sample_safe have "object_members (to_json sample_update) =
       Some [(''exchange'', TString (exchange sample_update)), (''pair'', TString (pair sample_update)),
             (''bid'', TNumber (fixed8 (bid sample_update))),
             (''ask'', TNumber (fixed8 (ask sample_update))),
             (''timestamp'', TNumber (show_int (epoch_ms (timestamp sample_update))))]"
    and "CHR 0x0A \<notin> set (to_json sample_update)"
    and "\<forall>c \<in> set (clients (serve [Accept])). (\<lambda>c. WriteOk) c = WriteOk \<longrightarrow>
           wire (broadcast_price (\<lambda>c. WriteOk) sample_update (serve [Accept])) c =
             wire (serve [Accept]) c @ to_json sample_update @ [CHR 0x0A]"
    by blast+
  moreover from this(3) s
  have "wire (broadcast_price (\<lambda>c. WriteOk) sample_update (serve [Accept])) 0 =
          to_json sample_update @ [CHR 0x0A]"
    by simp
  ultimately show ?thesis
    using sample_safe sample_line s(1) ws fp by (simp only: a b t e simp_thms)
qed

text \<open>
  Claim C6, stated of every record, fails: an exchange name that holds a line feed puts
  a line feed inside the line, and a bid that is not a number is rendered as the word nan,
  which is not in fixed notation.
\<close>

theorem to_json_encoding_counterexample:
  "CHR 0x0A \<in> set (to_json (sample_update\<lparr>exchange := [CHR 0x0A]\<rparr>))
   \<and> fixed8 (bid (sample_update\<lparr>bid := NaN False\<rparr>)) = ''nan''
   \<and> \<not> fixed_point_8 (fixed8 (bid (sample_update\<lparr>bid := NaN False\<rparr>)))"
  by (simp add: to_json_def fixed_point_8_def is_digit_def)

text \<open>
  The sample record's line is a JSON object, and its two strings are in it as they are.
\<close>

theorem to_json_well_formed_witness:
  "json_safe (exchange sample_update) \<and> json_safe (pair sample_update)
   \<and> is_finite (bid sample_update) \<and> is_finite (ask sample_update)
   \<and> is_json_object (to_json sample_update)"
  using to_json_well_formed sample_safe by blast

text \<open>
  Claim C10 fails as stated: an exchange name that is a single tab holds neither a double
  quote nor a backslash, yet the line is not a JSON object; nor is the line of a record
  whose bid is not a number.
\<close>

theorem to_json_well_formed_counterexample:
  "CHR 0x22 \<notin> set (exchange (sample_update\<lparr>exchange := [CHR 0x09]\<rparr>))
   \<and> CHR 0x5C \<notin> set (exchange (sample_update\<lparr>exchange := [CHR 0x09]\<rparr>))
   \<and> CHR 0x22 \<notin> set (pair (sample_update\<lparr>exchange := [CHR 0x09]\<rparr>))
   \<and> CHR 0x5C \<notin> set (pair (sample_update\<lparr>exchange := [CHR 0x09]\<rparr>))
   \<and> \<not> is_json_object (to_json (sample_update\<lparr>exchange := [CHR 0x09]\<rparr>))
   \<and> \<not> is_json_object (to_json (sample_update\<lparr>bid := NaN False\<rparr>))"
proof -
  have a: "\<not> is_json_object (to_json (sample_update\<lparr>exchange := [CHR 0x09]\<rparr>))"
    by (simp add: is_json_object_def tokens_def to_json_def sample_update_def Let_def
        between_step_def is_control_def is_digit_def)
  have b: "\<not> is_json_object (to_json (sample_update\<lparr>bid := NaN False\<rparr>))"
    by (simp add: is_json_object_def tokens_def to_json_def sample_update_def Let_def
        between_step_def is_control_def is_digit_def)
  from a b show ?thesis by (simp add: sample_update_def)
qed

end
